theory Spec2Isabelle
  imports Complex_Main "HOL-Library.Word" "HOL-Library.Log_Nat"
begin

section \<open>Values of the host language\<close>

text \<open>
  The decoder is JavaScript. Integer-valued numbers (indices, lengths, sample values, powers) are
  modelled as \<open>int\<close>: all of them stay far below \<open>2^53\<close>, where doubles are exact. The
  two quotients the code takes of a length (\<open>buffer.length / 2\<close>, \<open>b.length / 4\<close>)
  are modelled as \<open>rat\<close>, again exact. Phases, phase differences and their sums are
  floating-point numbers, modelled with their rounding in the section on numbers below. The
  value \<open>undefined\<close> that a read of a typed array out of range gives is \<open>None\<close>.

  \<open>fs.readFileSync\<close> throws for a missing file. A loop without a bound does not return
  a value: it pushes to its array until the array or the heap overflows. Both outcomes are
  values of the type \<open>error\<close>.
\<close>

datatype error = IOError | NoReturn

type_synonym byte = "8 word"

type_synonym files = "string \<rightharpoonup> byte list"

definition readFileSync :: "files \<Rightarrow> string \<Rightarrow> error + byte list" where
  "readFileSync disk file = (case disk file of None \<Rightarrow> Inl IOError | Some buffer \<Rightarrow> Inr buffer)"

text \<open>
  Typed arrays (\<open>Buffer\<close>, \<open>Uint8Array\<close>, \<open>Float32Array\<close>, \<open>Float64Array\<close>) have a fixed
  length. Reading outside \<open>0 .. length - 1\<close> gives \<open>undefined\<close>; writing there is ignored.
\<close>

definition ta_get :: "'a list \<Rightarrow> int \<Rightarrow> 'a option" where
  "ta_get xs i = (if 0 \<le> i \<and> i < int (length xs) then Some (xs ! nat i) else None)"

definition ta_set :: "'a list \<Rightarrow> int \<Rightarrow> 'a \<Rightarrow> 'a list" where
  "ta_set xs i v = (if 0 \<le> i \<and> i < int (length xs) then xs[nat i := v] else xs)"

text \<open>Storing into a \<open>Uint8Array\<close>: \<open>undefined\<close> converts to \<open>NaN\<close> and then to 0.\<close>

definition toUint8 :: "byte option \<Rightarrow> byte" where
  "toUint8 v = (case v of None \<Rightarrow> 0 | Some b \<Rightarrow> b)"

text \<open>
  \<open>new Uint8Array(len)\<close> converts its argument with \<open>ToIndex\<close>: a fractional
  \<open>len \<ge> 0\<close> is truncated. The new array is filled with zeros.
\<close>

definition newArray :: "rat \<Rightarrow> 'a::zero list" where
  "newArray len = replicate (nat \<lfloor>len\<rfloor>) 0"

section \<open>Numbers\<close>

text \<open>
  A JavaScript number is an IEEE 754 double: a finite value, an infinity or \<open>NaN\<close>. Every
  finite double is a rational number, and \<open>Val\<close> holds it. The two zeros are both
  \<open>Val 0\<close>: the functions modelled here add, subtract, multiply, compare and store numbers,
  and none of these tells the zeros apart.

  The result of an arithmetic operation is the exact result rounded to the nearest double,
  ties to even. \<open>rne\<close> rounds a rational to the nearest integer, ties to even;
  \<open>ilog2 x\<close> is the exponent \<open>e\<close> with \<open>2^e \<le> x < 2^(e+1)\<close> of a positive
  \<open>x\<close>; \<open>round_unbounded p emin\<close> rounds to \<open>p\<close> significant bits, with the spacing
  of the subnormal numbers below \<open>2^emin\<close>; \<open>round_to\<close> adds the overflow to an
  infinity. Doubles have 53 bits and exponents from -1022 to 1023; the elements of a
  \<open>Float32Array\<close> have 24 bits and exponents from -126 to 127, and a store into such an
  array rounds (\<open>fround\<close>).
\<close>

datatype number = Val rat | PosInf | NegInf | NotANumber

instantiation number :: zero
begin

definition zero_number :: number where
  "zero_number = Val 0"

instance ..

end

definition rne :: "rat \<Rightarrow> int" where
  "rne x =
     (let f = \<lfloor>x\<rfloor>; r = x - of_int f
      in if r < 1 / 2 then f else if 1 / 2 < r then f + 1 else if even f then f else f + 1)"

definition ilog2 :: "rat \<Rightarrow> int" where
  "ilog2 x = (if 1 \<le> x then bitlen \<lfloor>x\<rfloor> - 1 else - bitlen (\<lceil>1 / x\<rceil> - 1))"

definition round_unbounded :: "nat \<Rightarrow> int \<Rightarrow> rat \<Rightarrow> rat" where
  "round_unbounded p emin x =
     (if x = 0 then 0
      else (let e = max (ilog2 \<bar>x\<bar>) emin;
                q = 2 powi (e - int p + 1)
            in of_int (rne (x / q)) * q))"

definition round_to :: "nat \<Rightarrow> int \<Rightarrow> int \<Rightarrow> rat \<Rightarrow> number" where
  "round_to p emin emax x =
     (let r = round_unbounded p emin x
      in if 2 powi (emax + 1) \<le> \<bar>r\<bar> then (if 0 < r then PosInf else NegInf) else Val r)"

definition round64 :: "rat \<Rightarrow> number" where
  "round64 = round_to 53 (- 1022) 1023"

definition round32 :: "rat \<Rightarrow> number" where
  "round32 = round_to 24 (- 126) 127"

text \<open>The operators \<open>-x\<close>, \<open>x + y\<close>, \<open>x - y\<close>, \<open>x * y\<close> and \<open>x < y\<close> on numbers.\<close>

fun num_neg :: "number \<Rightarrow> number" where
  "num_neg (Val a) = Val (- a)"
| "num_neg PosInf = NegInf"
| "num_neg NegInf = PosInf"
| "num_neg NotANumber = NotANumber"

fun num_add :: "number \<Rightarrow> number \<Rightarrow> number" where
  "num_add NotANumber y = NotANumber"
| "num_add x NotANumber = NotANumber"
| "num_add PosInf NegInf = NotANumber"
| "num_add NegInf PosInf = NotANumber"
| "num_add PosInf y = PosInf"
| "num_add x PosInf = PosInf"
| "num_add NegInf y = NegInf"
| "num_add x NegInf = NegInf"
| "num_add (Val a) (Val b) = round64 (a + b)"

definition num_sub :: "number \<Rightarrow> number \<Rightarrow> number" where
  "num_sub x y = num_add x (num_neg y)"

fun num_mul :: "number \<Rightarrow> number \<Rightarrow> number" where
  "num_mul NotANumber y = NotANumber"
| "num_mul x NotANumber = NotANumber"
| "num_mul (Val a) (Val b) = round64 (a * b)"
| "num_mul (Val a) PosInf = (if a = 0 then NotANumber else if 0 < a then PosInf else NegInf)"
| "num_mul (Val a) NegInf = (if a = 0 then NotANumber else if 0 < a then NegInf else PosInf)"
| "num_mul PosInf (Val b) = (if b = 0 then NotANumber else if 0 < b then PosInf else NegInf)"
| "num_mul NegInf (Val b) = (if b = 0 then NotANumber else if 0 < b then NegInf else PosInf)"
| "num_mul PosInf PosInf = PosInf"
| "num_mul PosInf NegInf = NegInf"
| "num_mul NegInf PosInf = NegInf"
| "num_mul NegInf NegInf = PosInf"

fun num_less :: "number \<Rightarrow> number \<Rightarrow> bool" where
  "num_less NotANumber y = False"
| "num_less x NotANumber = False"
| "num_less (Val a) (Val b) = (a < b)"
| "num_less (Val a) PosInf = True"
| "num_less NegInf (Val b) = True"
| "num_less NegInf PosInf = True"
| "num_less x y = False"

text \<open>The conversion of a number stored into a \<open>Float32Array\<close>.\<close>

fun fround :: "number \<Rightarrow> number" where
  "fround (Val a) = round32 a"
| "fround x = x"

text \<open>
  \<open>Math.PI\<close> is the double 3.141592653589793, which lies just below \<open>\<pi>\<close>; \<open>PI64\<close> is
  its value.
\<close>

definition PI64 :: rat where
  "PI64 = 884279719003555 / 2 ^ 48"

definition Math_PI :: number where
  "Math_PI = Val PI64"

section \<open>Sample Loader\<close>

record 'a iq =
  I :: "'a list"
  Q :: "'a list"

function readIq_loop :: "byte list \<Rightarrow> rat \<Rightarrow> int \<Rightarrow> byte iq \<Rightarrow> byte iq" where
  "readIq_loop buffer len i st =
     (if of_int i < len
      then readIq_loop buffer len (i + 1)
             \<lparr>I = ta_set (I st) i (toUint8 (ta_get buffer (2 * i))),
              Q = ta_set (Q st) i (toUint8 (ta_get buffer (2 * i + 1)))\<rparr>
      else st)"
  by pat_completeness auto
termination
  by (relation "measure (\<lambda>(buffer, len, i, st). nat (\<lceil>len\<rceil> - i))")
     (auto simp: less_ceiling_iff)

definition readIq :: "files \<Rightarrow> string \<Rightarrow> error + byte iq" where
  "readIq disk file =
     (case readFileSync disk file of
        Inl e \<Rightarrow> Inl e
      | Inr buffer \<Rightarrow>
          (let len = of_nat (length buffer) / 2
           in Inr (readIq_loop buffer len 0 \<lparr>I = newArray len, Q = newArray len\<rparr>)))"

text \<open>The second program of the repository has its own copy of the loader.\<close>

function readCU8File_loop :: "byte list \<Rightarrow> rat \<Rightarrow> int \<Rightarrow> byte iq \<Rightarrow> byte iq" where
  "readCU8File_loop buffer n i st =
     (if of_int i < n
      then readCU8File_loop buffer n (i + 1)
             \<lparr>I = ta_set (I st) i (toUint8 (ta_get buffer (2 * i))),
              Q = ta_set (Q st) i (toUint8 (ta_get buffer (2 * i + 1)))\<rparr>
      else st)"
  by pat_completeness auto
termination
  by (relation "measure (\<lambda>(buffer, n, i, st). nat (\<lceil>n\<rceil> - i))")
     (auto simp: less_ceiling_iff)

definition readCU8File :: "files \<Rightarrow> string \<Rightarrow> error + byte iq" where
  "readCU8File disk file =
     (case readFileSync disk file of
        Inl e \<Rightarrow> Inl e
      | Inr buffer \<Rightarrow>
          (let n = of_nat (length buffer) / 2
           in Inr (readCU8File_loop buffer n 0 \<lparr>I = newArray n, Q = newArray n\<rparr>)))"

section \<open>Normalizer and Power Detector\<close>

text \<open>
  The source loops over \<open>I.length\<close> and reads both channels at the loop index. The loader
  allocates both channels with the same length, so each loop is written as a map over the
  channel, or over the zipped channels. Every value is an integer of small magnitude, exact
  in a \<open>Float32Array\<close>.
\<close>

definition normalize_iq :: "byte iq \<Rightarrow> int iq" where
  "normalize_iq raw =
     \<lparr>I = map (\<lambda>v. uint v - 128) (I raw), Q = map (\<lambda>v. uint v - 128) (Q raw)\<rparr>"

definition normalizeIQ :: "byte list \<Rightarrow> byte list \<Rightarrow> int iq" where
  "normalizeIQ Iu Qu =
     \<lparr>I = map (\<lambda>v. uint v - 128) Iu, Q = map (\<lambda>v. uint v - 128) Qu\<rparr>"

definition calculatePower :: "int iq \<Rightarrow> int list" where
  "calculatePower s = map2 (\<lambda>i q. i * i + q * q) (I s) (Q s)"

definition computePower :: "int list \<Rightarrow> int list \<Rightarrow> int list" where
  "computePower nI nQ = map2 (\<lambda>i q. i * i + q * q) nI nQ"

definition aboveThreshold :: "int list \<Rightarrow> real \<Rightarrow> bool list" where
  "aboveThreshold pw threshold = map (\<lambda>v. of_int v > threshold) pw"

text \<open>
  \<open>detectSignal\<close> maps over a \<open>Float32Array\<close>, so its result is again a
  \<open>Float32Array\<close>: the booleans are stored as 1 and 0, and tested for truthiness later.
\<close>

definition detectSignal :: "int list \<Rightarrow> real \<Rightarrow> int list" where
  "detectSignal pw threshold = map (\<lambda>v. if of_int v > threshold then 1 else 0) pw"

definition truthy :: "int \<Rightarrow> bool" where
  "truthy v = (v \<noteq> 0)"

section \<open>Interval Extractor\<close>

text \<open>
  The state of the scan is the variable \<open>start\<close> (\<open>null\<close> is \<open>None\<close>) and the array
  \<open>intervals\<close>. The two \<open>if\<close> statements of the callback run one after the other.
  The minimum length is taken to be an integer.
\<close>

definition findIntervals_step ::
  "int \<Rightarrow> bool \<Rightarrow> int \<Rightarrow> int option \<times> (int \<times> int) list \<Rightarrow> int option \<times> (int \<times> int) list" where
  "findIntervals_step minLen f i st =
     (let (start, intervals) = st;
          start = (if f \<and> start = None then Some i else start)
      in case start of
           Some s \<Rightarrow>
             if \<not> f
             then (None, if i - s \<ge> minLen then intervals @ [(s, i - 1)] else intervals)
             else (start, intervals)
         | None \<Rightarrow> (start, intervals))"

fun findIntervals_forEach ::
  "int \<Rightarrow> bool list \<Rightarrow> int \<Rightarrow> int option \<times> (int \<times> int) list \<Rightarrow> int option \<times> (int \<times> int) list" where
  "findIntervals_forEach minLen [] i st = st"
| "findIntervals_forEach minLen (f # fs) i st =
     findIntervals_forEach minLen fs (i + 1) (findIntervals_step minLen f i st)"

definition findIntervals :: "bool list \<Rightarrow> int \<Rightarrow> (int \<times> int) list" where
  "findIntervals flags minLen =
     (let (start, intervals) = findIntervals_forEach minLen flags 0 (None, [])
      in case start of
           Some s \<Rightarrow>
             if int (length flags) - s \<ge> minLen
             then intervals @ [(s, int (length flags) - 1)]
             else intervals
         | None \<Rightarrow> intervals)"

text \<open>The copy in the second program keeps a flag \<open>inSig\<close> beside \<open>start\<close>.\<close>

definition findSignalIntervals_step ::
  "int \<Rightarrow> int \<Rightarrow> int \<Rightarrow> bool \<times> int \<times> (int \<times> int) list \<Rightarrow> bool \<times> int \<times> (int \<times> int) list" where
  "findSignalIntervals_step minLen v i st =
     (let (inSig, start, intervals) = st;
          (inSig, start) = (if \<not> inSig \<and> truthy v then (True, i) else (inSig, start))
      in if inSig \<and> \<not> truthy v
         then (let e = i - 1
               in (False, start, if e - start + 1 \<ge> minLen then intervals @ [(start, e)] else intervals))
         else (inSig, start, intervals))"

fun findSignalIntervals_for ::
  "int \<Rightarrow> int list \<Rightarrow> int \<Rightarrow> bool \<times> int \<times> (int \<times> int) list \<Rightarrow> bool \<times> int \<times> (int \<times> int) list" where
  "findSignalIntervals_for minLen [] i st = st"
| "findSignalIntervals_for minLen (v # vs) i st =
     findSignalIntervals_for minLen vs (i + 1) (findSignalIntervals_step minLen v i st)"

definition findSignalIntervals :: "int list \<Rightarrow> int \<Rightarrow> (int \<times> int) list" where
  "findSignalIntervals isSig minLen =
     (let len = int (length isSig);
          (inSig, start, intervals) = findSignalIntervals_for minLen isSig 0 (False, 0, [])
      in if inSig
         then (let e = len - 1
               in if e - start + 1 \<ge> minLen then intervals @ [(start, e)] else intervals)
         else intervals)"

section \<open>Phase Demodulator\<close>

text \<open>
  The result of \<open>Math.atan2\<close> is an approximation that the language leaves to the
  implementation, so the function is a parameter \<open>atan2\<close> of \<open>computePhases\<close> and of the
  pipelines, and every property below holds for each such function. Its arguments are the
  normalized samples, which are integers. The loop of \<open>computePhases\<close> reads both channels
  at the same index and is a map over the zipped channels, as in the Power Detector.
\<close>

definition computePhases :: "(int \<Rightarrow> int \<Rightarrow> number) \<Rightarrow> int iq \<Rightarrow> number list" where
  "computePhases atan2 s = map2 (\<lambda>i q. atan2 q i) (I s) (Q s)"

text \<open>
  The loop starts at index 1, so \<open>diffs[0]\<close> keeps the zero of the fresh array; the array
  \<open>diffs\<close> of the source is \<open>dfs\<close> here. Both reads of \<open>phases\<close> are in range, since
  \<open>1 \<le> i < len\<close>. The two corrections are two \<open>if\<close> statements, one after the other.
  \<open>phases\<close> is a \<open>Float64Array\<close>, so the subtraction and the corrections are double
  arithmetic; \<open>diffs\<close> is a \<open>Float32Array\<close>, so the store rounds once more.
\<close>

function computeDiffs_loop ::
  "number list \<Rightarrow> int \<Rightarrow> int \<Rightarrow> number list \<Rightarrow> number list" where
  "computeDiffs_loop phases len i dfs =
     (if i < len
      then (let d = num_sub (phases ! nat i) (phases ! nat (i - 1));
                d = (if num_less Math_PI d then num_sub d (num_mul (Val 2) Math_PI) else d);
                d = (if num_less d (num_neg Math_PI) then num_add d (num_mul (Val 2) Math_PI)
                     else d)
            in computeDiffs_loop phases len (i + 1) (ta_set dfs i (fround d)))
      else dfs)"
  by pat_completeness auto
termination
  by (relation "measure (\<lambda>(phases, len, i, dfs). nat (len - i))") auto

definition computeDiffs :: "number list \<Rightarrow> number list" where
  "computeDiffs phases =
     (let len = int (length phases)
      in computeDiffs_loop phases len 1 (newArray (of_int len)))"

function computePhaseDiff_loop ::
  "number list \<Rightarrow> int \<Rightarrow> int \<Rightarrow> number list \<Rightarrow> number list" where
  "computePhaseDiff_loop phases n i dp =
     (if i < n
      then (let d = num_sub (phases ! nat i) (phases ! nat (i - 1));
                d = (if num_less Math_PI d then num_sub d (num_mul (Val 2) Math_PI) else d);
                d = (if num_less d (num_neg Math_PI) then num_add d (num_mul (Val 2) Math_PI)
                     else d)
            in computePhaseDiff_loop phases n (i + 1) (ta_set dp i (fround d)))
      else dp)"
  by pat_completeness auto
termination
  by (relation "measure (\<lambda>(phases, n, i, dp). nat (n - i))") auto

definition computePhaseDiff :: "number list \<Rightarrow> number list" where
  "computePhaseDiff phases =
     (let n = int (length phases);
          dp = ta_set (newArray (of_int n)) 0 (fround (Val 0))
      in computePhaseDiff_loop phases n 1 dp)"

section \<open>Bit Slicer\<close>

text \<open>
  The accumulator \<open>sum\<close> of the source is \<open>acc\<close>, a double: each \<open>sum += diffs[...]\<close>
  rounds. A read of the difference array out of range gives \<open>undefined\<close>, which makes the
  sum \<open>NaN\<close> for good; that \<open>NaN\<close> is \<open>None\<close> here, apart from the \<open>NaN\<close> that
  arithmetic on the elements can give, and \<open>sum > 0\<close> is false for both. The inner loop over
  \<open>k\<close> is the function \<open>integrate\<close>, shared by the two slicers, whose inner loops are
  the same text. The names \<open>total\<close>, \<open>end\<close> and \<open>diffs\<close> of the source are \<open>tot\<close>,
  \<open>e\<close> and \<open>dphi\<close> here.
\<close>

definition js_add :: "number option \<Rightarrow> number option \<Rightarrow> number option" where
  "js_add a b = (case (a, b) of (Some x, Some y) \<Rightarrow> Some (num_add x y) | _ \<Rightarrow> None)"

definition js_positive :: "number option \<Rightarrow> bool" where
  "js_positive a = (case a of Some x \<Rightarrow> num_less (Val 0) x | None \<Rightarrow> False)"

text \<open>
  \<open>Math.floor(total / samplesPerBit)\<close> for integers: a division by zero gives an
  infinity or \<open>NaN\<close>. A loop \<open>s < symbols\<close> has no bound under \<open>+Infinity\<close> (with a
  width of 0 its body is one \<open>push\<close>) and does not run at all under \<open>-Infinity\<close> or
  \<open>NaN\<close>. The width \<open>samplesPerBit\<close> is taken to be an integer.
\<close>

datatype bound = Finite int | PlusInfinity | MinusInfinity | NaN

definition floorDiv :: "int \<Rightarrow> int \<Rightarrow> bound" where
  "floorDiv tot w =
     (if w \<noteq> 0 then Finite \<lfloor>(of_int tot :: rat) / of_int w\<rfloor>
      else if tot > 0 then PlusInfinity
      else if tot < 0 then MinusInfinity
      else NaN)"

function integrate ::
  "number list \<Rightarrow> int \<Rightarrow> int \<Rightarrow> int \<Rightarrow> number option \<Rightarrow> number option" where
  "integrate dphi offset samplesPerBit k acc =
     (if k < samplesPerBit
      then integrate dphi offset samplesPerBit (k + 1) (js_add acc (ta_get dphi (offset + k)))
      else acc)"
  by pat_completeness auto
termination
  by (relation "measure (\<lambda>(dphi, offset, samplesPerBit, k, acc). nat (samplesPerBit - k))") auto

function decodeBits_loop ::
  "number list \<Rightarrow> int \<Rightarrow> int \<Rightarrow> int \<Rightarrow> int \<Rightarrow> string list \<Rightarrow> string list" where
  "decodeBits_loop dphi start samplesPerBit symbols s bits =
     (if s < symbols
      then (let offset = start + s * samplesPerBit;
                acc = integrate dphi offset samplesPerBit 0 (Some (Val 0))
            in decodeBits_loop dphi start samplesPerBit symbols (s + 1)
                 (bits @ [if js_positive acc then ''1'' else ''0'']))
      else bits)"
  by pat_completeness auto
termination
  by (relation "measure (\<lambda>(dphi, start, samplesPerBit, symbols, s, bits). nat (symbols - s))") auto

definition decodeBits :: "number list \<Rightarrow> int \<times> int \<Rightarrow> int \<Rightarrow> error + string list" where
  "decodeBits dphi interval samplesPerBit =
     (let (start, e) = interval;
          tot = e - start + 1
      in case floorDiv tot samplesPerBit of
           Finite symbols \<Rightarrow> Inr (decodeBits_loop dphi start samplesPerBit symbols 0 [])
         | PlusInfinity \<Rightarrow> Inl NoReturn
         | _ \<Rightarrow> Inr [])"

text \<open>The copy in the second program pushes the numbers 1 and 0.\<close>

function decodeFSK_loop ::
  "number list \<Rightarrow> int \<Rightarrow> int \<Rightarrow> int \<Rightarrow> int \<Rightarrow> int list \<Rightarrow> int list" where
  "decodeFSK_loop dphi start samplesPerBit nSymbols s bits =
     (if s < nSymbols
      then (let base = start + s * samplesPerBit;
                acc = integrate dphi base samplesPerBit 0 (Some (Val 0))
            in decodeFSK_loop dphi start samplesPerBit nSymbols (s + 1)
                 (bits @ [if js_positive acc then 1 else 0]))
      else bits)"
  by pat_completeness auto
termination
  by (relation "measure (\<lambda>(dphi, start, samplesPerBit, nSymbols, s, bits). nat (nSymbols - s))") auto

definition decodeFSK :: "number list \<Rightarrow> int \<Rightarrow> int \<Rightarrow> int \<Rightarrow> error + int list" where
  "decodeFSK dphi start e samplesPerBit =
     (let tot = e - start + 1
      in case floorDiv tot samplesPerBit of
           Finite nSymbols \<Rightarrow> Inr (decodeFSK_loop dphi start samplesPerBit nSymbols 0 [])
         | PlusInfinity \<Rightarrow> Inl NoReturn
         | _ \<Rightarrow> Inr [])"

section \<open>Numbers as strings\<close>

definition digitChar :: "nat \<Rightarrow> char" where
  "digitChar d = ''0123456789abcdefghijklmnopqrstuvwxyz'' ! d"

function radixStr :: "nat \<Rightarrow> nat \<Rightarrow> string" where
  "radixStr b n =
     (if b < 2 then []
      else if n < b then [digitChar n]
      else radixStr b (n div b) @ [digitChar (n mod b)])"
  by pat_completeness auto
termination
  by (relation "measure (\<lambda>(b, n). n)") auto

text \<open>\<open>Number.prototype.toString(radix)\<close> on an integer or on \<open>NaN\<close>.\<close>

definition numToString :: "nat \<Rightarrow> int option \<Rightarrow> string" where
  "numToString radix v =
     (case v of
        None \<Rightarrow> ''NaN''
      | Some n \<Rightarrow> if n < 0 then CHR ''-'' # radixStr radix (nat (- n)) else radixStr radix (nat n))"

text \<open>\<open>Array.prototype.join('')\<close> on strings and on integers.\<close>

definition join :: "string list \<Rightarrow> string" where
  "join xs = concat xs"

definition joinNumbers :: "int list \<Rightarrow> string" where
  "joinNumbers xs = concat (map (\<lambda>n. numToString 10 (Some n)) xs)"

section \<open>Extraction pipelines\<close>

text \<open>Both pipelines take the implementation's \<open>atan2\<close> as their first argument.\<close>

definition PREAMBLE_LENGTH :: nat where "PREAMBLE_LENGTH = 24"
definition SYNC_WORD_LENGTH :: nat where "SYNC_WORD_LENGTH = 16"
definition DEVICE_ID_LENGTH :: nat where "DEVICE_ID_LENGTH = 20"
definition COMMAND_LENGTH :: nat where "COMMAND_LENGTH = 3"
definition BATTERY_LENGTH :: nat where "BATTERY_LENGTH = 1"

text \<open>A \<open>Set\<close> of strings keeps its members in the order of their first insertion.\<close>

definition set_add :: "string list \<Rightarrow> string \<Rightarrow> string list" where
  "set_add members x = (if x \<in> set members then members else members @ [x])"

fun extractSequences_forEach ::
  "number list \<Rightarrow> int \<Rightarrow> nat \<Rightarrow> (int \<times> int) list \<Rightarrow> string list \<Rightarrow> error + string list" where
  "extractSequences_forEach dphi samplesPerBit validLen [] sequences = Inr sequences"
| "extractSequences_forEach dphi samplesPerBit validLen (interval # rest) sequences =
     (case decodeBits dphi interval samplesPerBit of
        Inl err \<Rightarrow> Inl err
      | Inr bits \<Rightarrow>
          extractSequences_forEach dphi samplesPerBit validLen rest
            (if length bits = validLen then set_add sequences (join bits) else sequences))"

definition extractSequences ::
  "(int \<Rightarrow> int \<Rightarrow> number) \<Rightarrow> files \<Rightarrow> string \<Rightarrow> real \<Rightarrow> int \<Rightarrow> int \<Rightarrow> error + string list" where
  "extractSequences atan2 disk file threshold minLen samplesPerBit =
     (case readIq disk file of
        Inl err \<Rightarrow> Inl err
      | Inr raw \<Rightarrow>
          (let norm = normalize_iq raw;
               pw = calculatePower norm;
               flags = aboveThreshold pw threshold;
               intervals = findIntervals flags minLen
           in if intervals = [] then Inr []
              else (let phases = computePhases atan2 norm;
                        dphi = computeDiffs phases;
                        validLen = PREAMBLE_LENGTH + SYNC_WORD_LENGTH + DEVICE_ID_LENGTH
                                     + COMMAND_LENGTH + BATTERY_LENGTH
                    in extractSequences_forEach dphi samplesPerBit validLen intervals [])))"

fun extractUnique64BitSequences_forEach ::
  "number list \<Rightarrow> int \<Rightarrow> (int \<times> int) list \<Rightarrow> string list \<Rightarrow> error + string list" where
  "extractUnique64BitSequences_forEach dphi samplesPerBit [] uniqueSequences = Inr uniqueSequences"
| "extractUnique64BitSequences_forEach dphi samplesPerBit ((start, e) # rest) uniqueSequences =
     (case decodeFSK dphi start e samplesPerBit of
        Inl err \<Rightarrow> Inl err
      | Inr bits \<Rightarrow>
          extractUnique64BitSequences_forEach dphi samplesPerBit rest
            (if length bits = 64 then set_add uniqueSequences (joinNumbers bits)
             else uniqueSequences))"

definition extractUnique64BitSequences ::
  "(int \<Rightarrow> int \<Rightarrow> number) \<Rightarrow> files \<Rightarrow> string \<Rightarrow> real \<Rightarrow> int \<Rightarrow> int \<Rightarrow> error + string list" where
  "extractUnique64BitSequences atan2 disk filePath powerThreshold minSignalLength samplesPerBit =
     (case readCU8File disk filePath of
        Inl err \<Rightarrow> Inl err
      | Inr raw \<Rightarrow>
          (let norm = normalizeIQ (I raw) (Q raw);
               pw = computePower (I norm) (Q norm);
               isSignal = detectSignal pw powerThreshold;
               intervals = findSignalIntervals isSignal minSignalLength
           in if intervals = [] then Inr []
              else (let phases = computePhases atan2 norm;
                        dphi = computePhaseDiff phases
                    in extractUnique64BitSequences_forEach dphi samplesPerBit intervals [])))"

section \<open>Frame Parser\<close>

text \<open>
  Strings are lists of 8-bit characters. \<open>slice\<close> and \<open>padStart\<close> are the string methods,
  for the non-negative arguments the parser passes; \<open>slice\<close> clamps at the end of the string.
\<close>

definition str_slice :: "string \<Rightarrow> nat \<Rightarrow> nat \<Rightarrow> string" where
  "str_slice str a b = take (b - a) (drop a str)"

definition padStart :: "string \<Rightarrow> nat \<Rightarrow> char \<Rightarrow> string" where
  "padStart str targetLength c = replicate (targetLength - length str) c @ str"

text \<open>
  \<open>parseInt(str, 2)\<close>: leading white space is skipped, one sign is read, and the longest
  run of binary digits that follows is the value; with no digit the result is \<open>NaN\<close>.
\<close>

definition isWhiteSpace :: "char \<Rightarrow> bool" where
  "isWhiteSpace c = (c \<in> set [CHR 0x09, CHR 0x0A, CHR 0x0B, CHR 0x0C, CHR 0x0D, CHR 0x20, CHR 0xA0])"

definition isBinaryDigit :: "char \<Rightarrow> bool" where
  "isBinaryDigit c = (c = CHR ''0'' \<or> c = CHR ''1'')"

definition binaryValue :: "string \<Rightarrow> int" where
  "binaryValue ds = foldl (\<lambda>a c. 2 * a + (if c = CHR ''1'' then 1 else 0)) 0 ds"

definition parseInt2 :: "string \<Rightarrow> int option" where
  "parseInt2 str =
     (let t = dropWhile isWhiteSpace str;
          (sign, u) = (case t of
                         [] \<Rightarrow> (1, t)
                       | c # r \<Rightarrow> if c = CHR ''-'' then (- 1, r)
                                  else if c = CHR ''+'' then (1, r)
                                  else (1, t));
          ds = takeWhile isBinaryDigit u
      in if ds = [] then None else Some (sign * binaryValue ds))"

function binToHex_loop :: "string \<Rightarrow> nat \<Rightarrow> string \<Rightarrow> string" where
  "binToHex_loop b i h =
     (if i < length b
      then binToHex_loop b (i + 4) (h @ numToString 16 (parseInt2 (str_slice b i (i + 4))))
      else h)"
  by pat_completeness auto
termination
  by (relation "measure (\<lambda>(b, i, h). length b - i)") auto

definition binToHex :: "string \<Rightarrow> string" where
  "binToHex b0 =
     (let b = padStart b0 (nat \<lceil>(of_nat (length b0) :: rat) / 4\<rceil> * 4) CHR ''0''
      in binToHex_loop b 0 [])"

definition SYNC_WORD :: string where
  "SYNC_WORD = ''0010110111010100''"

definition COMMANDS :: "string \<rightharpoonup> string" where
  "COMMANDS = [''001'' \<mapsto> ''OPEN'', ''010'' \<mapsto> ''CLOSE'']"

definition BATTERY_STATUS :: "string \<rightharpoonup> string" where
  "BATTERY_STATUS = [''1'' \<mapsto> ''OK'', ''0'' \<mapsto> ''LOW'']"

text \<open>
  \<open>table[key] || dflt\<close>: a missing key gives \<open>undefined\<close>, and the default replaces every
  falsy value, of strings the empty one. The keys the parser looks up have at most three
  characters, so no property inherited from \<open>Object.prototype\<close> is found.
\<close>

definition lookupOr :: "(string \<rightharpoonup> string) \<Rightarrow> string \<Rightarrow> string \<Rightarrow> string" where
  "lookupOr table key dflt =
     (case table key of None \<Rightarrow> dflt | Some v \<Rightarrow> if v = [] then dflt else v)"

record frame =
  sync :: string
  deviceId :: string
  command :: string
  battery :: string

definition parse :: "string \<Rightarrow> frame" where
  "parse frameBits =
     (let pre = str_slice frameBits 0 PREAMBLE_LENGTH;
          sync = str_slice frameBits PREAMBLE_LENGTH (PREAMBLE_LENGTH + SYNC_WORD_LENGTH);
          idStart = PREAMBLE_LENGTH + SYNC_WORD_LENGTH;
          deviceId = ''0x'' @ binToHex (str_slice frameBits idStart (idStart + DEVICE_ID_LENGTH));
          cmdStart = idStart + DEVICE_ID_LENGTH;
          commandBits = str_slice frameBits cmdStart (cmdStart + COMMAND_LENGTH);
          batteryBit = str_slice frameBits (cmdStart + COMMAND_LENGTH)
                         (cmdStart + COMMAND_LENGTH + BATTERY_LENGTH)
      in \<lparr>sync = sync,
          deviceId = deviceId,
          command = lookupOr COMMANDS commandBits ''UNKNOWN'',
          battery = lookupOr BATTERY_STATUS batteryBit ''UNKNOWN''\<rparr>)"

section \<open>The caller of the parser\<close>

text \<open>
  \<open>processFile\<close> hands messages to the broker client and prints a line per accepted frame.
  The world it changes is the set of discovered devices, the messages handed over so far and
  the console. A state message carries the two booleans of its JSON body; a discovery message
  is identified by its kind and device.
\<close>

datatype payload = ContactConfig string | BatteryConfig string | State bool bool

record message =
  topic :: string
  body :: payload
  retain :: bool

record world =
  discovered :: "string set"
  sent :: "message list"
  console :: "(string \<times> string \<times> string) list"

definition DISCOVERY_PREFIX :: string where
  "DISCOVERY_PREFIX = ''homeassistant''"

definition publishDiscovery :: "string \<Rightarrow> world \<Rightarrow> world" where
  "publishDiscovery dev w =
     w\<lparr>sent := sent w @
          [\<lparr>topic = DISCOVERY_PREFIX @ ''/binary_sensor/'' @ dev @ ''/contact/config'',
            body = ContactConfig dev, retain = True\<rparr>,
           \<lparr>topic = DISCOVERY_PREFIX @ ''/binary_sensor/'' @ dev @ ''/battery_low/config'',
            body = BatteryConfig dev, retain = True\<rparr>],
       discovered := insert dev (discovered w)\<rparr>"

definition processFile_frame :: "world \<Rightarrow> string \<Rightarrow> world" where
  "processFile_frame w frameBits =
     (let fr = parse frameBits
      in if sync fr \<noteq> SYNC_WORD then w
         else (let w1 = (if deviceId fr \<notin> discovered w then publishDiscovery (deviceId fr) w else w);
                   baseTopic = ''rtl_433/'' @ deviceId fr
               in w1\<lparr>sent := sent w1 @
                        [\<lparr>topic = baseTopic,
                          body = State (command fr = ''OPEN'') (battery fr = ''LOW''),
                          retain = False\<rparr>],
                     console := console w1 @ [(deviceId fr, command fr, battery fr)]\<rparr>))"

definition POWER_THRESHOLD :: real where "POWER_THRESHOLD = 5"
definition MIN_SIGNAL_LENGTH :: int where "MIN_SIGNAL_LENGTH = 35000"
definition SAMPLES_PER_BIT :: int where "SAMPLES_PER_BIT = 635"

definition processFile ::
  "(int \<Rightarrow> int \<Rightarrow> number) \<Rightarrow> files \<Rightarrow> string \<Rightarrow> world \<Rightarrow> error + world" where
  "processFile atan2 disk file w =
     (case extractSequences atan2 disk file POWER_THRESHOLD MIN_SIGNAL_LENGTH SAMPLES_PER_BIT of
        Inl err \<Rightarrow> Inl err
      | Inr frames \<Rightarrow> Inr (foldl processFile_frame w frames))"

section \<open>Predicates of the proofs\<close>

text \<open>
  An interval is sound for a mask when it lies inside the mask, the mask is true at each of its
  samples and it is long enough. The invariant of the scan after \<open>n\<close> flags says so of every
  interval found, keeps them in order and apart, and describes the run still open.
  \<open>scan_abs\<close> maps the state of the second program's scan to that of the first.
\<close>

definition interval_ok :: "bool list \<Rightarrow> int \<Rightarrow> int \<times> int \<Rightarrow> bool" where
  "interval_ok flags minLen iv =
     (0 \<le> fst iv \<and> fst iv \<le> snd iv \<and> snd iv < int (length flags) \<and>
      (\<forall>j \<in> {fst iv .. snd iv}. flags ! nat j) \<and>
      minLen \<le> snd iv - fst iv + 1)"

definition scan_inv :: "bool list \<Rightarrow> int \<Rightarrow> nat \<Rightarrow> int option \<times> (int \<times> int) list \<Rightarrow> bool" where
  "scan_inv flags minLen n st =
     ((\<forall>iv \<in> set (snd st). interval_ok flags minLen iv \<and> snd iv < int n \<and>
          (case fst st of Some s \<Rightarrow> snd iv < s | None \<Rightarrow> True)) \<and>
      sorted_wrt (\<lambda>a b. snd a < fst b) (snd st) \<and>
      (case fst st of
         Some s \<Rightarrow> 0 \<le> s \<and> s < int n \<and> (\<forall>j \<in> {s ..< int n}. flags ! nat j)
       | None \<Rightarrow> True))"

definition scan_abs :: "bool \<times> int \<times> (int \<times> int) list \<Rightarrow> int option \<times> (int \<times> int) list" where
  "scan_abs st = (case st of (inSig, start, intervals) \<Rightarrow> (if inSig then Some start else None, intervals))"

text \<open>The hexadecimal digit of a group of four bits.\<close>

definition hexDigit :: "string \<Rightarrow> char" where
  "hexDigit nibble = digitChar (nat (binaryValue nibble))"

text \<open>
  The two corrections of the demodulator's loop body, applied to one difference. \<open>PI32\<close> is
  the value of \<open>Math.PI\<close> stored into a \<open>Float32Array\<close>, 3.1415927410125732. A number is
  in a range when it is finite and between the bounds.
\<close>

definition wrap_step :: "number \<Rightarrow> number" where
  "wrap_step d =
     (let d1 = (if num_less Math_PI d then num_sub d (num_mul (Val 2) Math_PI) else d)
      in if num_less d1 (num_neg Math_PI) then num_add d1 (num_mul (Val 2) Math_PI) else d1)"

definition PI32 :: rat where
  "PI32 = 13176795 / 2 ^ 22"

definition in_range :: "rat \<Rightarrow> rat \<Rightarrow> number \<Rightarrow> bool" where
  "in_range lo hi x = (case x of Val v \<Rightarrow> lo \<le> v \<and> v \<le> hi | _ \<Rightarrow> False)"

text \<open>The decision of the slicer for symbol \<open>s\<close>: the integrated sum is positive.\<close>

definition symbolBit :: "number list \<Rightarrow> int \<Rightarrow> int \<Rightarrow> int \<Rightarrow> bool" where
  "symbolBit dphi start w s = js_positive (integrate dphi (start + s * w) w 0 (Some (Val 0)))"

text \<open>
  A capture of 64 samples that alternate between the points (10, 0) and (0, 10) of the plane,
  a quarter turn apart, with the channels the loader reads from it.
\<close>

definition demo_capture :: "byte list" where
  "demo_capture =
     [138, 128, 128, 138, 138, 128, 128, 138, 138, 128, 128, 138, 138, 128, 128, 138, 138,
      128, 128, 138, 138, 128, 128, 138, 138, 128, 128, 138, 138, 128, 128, 138, 138, 128,
      128, 138, 138, 128, 128, 138, 138, 128, 128, 138, 138, 128, 128, 138, 138, 128, 128,
      138, 138, 128, 128, 138, 138, 128, 128, 138, 138, 128, 128, 138, 138, 128, 128, 138,
      138, 128, 128, 138, 138, 128, 128, 138, 138, 128, 128, 138, 138, 128, 128, 138, 138,
      128, 128, 138, 138, 128, 128, 138, 138, 128, 128, 138, 138, 128, 128, 138, 138, 128,
      128, 138, 138, 128, 128, 138, 138, 128, 128, 138, 138, 128, 128, 138, 138, 128, 128,
      138, 138, 128, 128, 138, 138, 128, 128, 138]"

definition demo_raw :: "byte iq" where
  "demo_raw =
     \<lparr>I = [138, 128, 138, 128, 138, 128, 138, 128, 138, 128, 138, 128, 138, 128, 138, 128, 138,
      128, 138, 128, 138, 128, 138, 128, 138, 128, 138, 128, 138, 128, 138, 128, 138, 128,
      138, 128, 138, 128, 138, 128, 138, 128, 138, 128, 138, 128, 138, 128, 138, 128, 138,
      128, 138, 128, 138, 128, 138, 128, 138, 128, 138, 128, 138, 128],
      Q = [128, 138, 128, 138, 128, 138, 128, 138, 128, 138, 128, 138, 128, 138, 128, 138, 128,
      138, 128, 138, 128, 138, 128, 138, 128, 138, 128, 138, 128, 138, 128, 138, 128, 138,
      128, 138, 128, 138, 128, 138, 128, 138, 128, 138, 128, 138, 128, 138, 128, 138, 128,
      138, 128, 138, 128, 138, 128, 138, 128, 138, 128, 138, 128, 138]\<rparr>"

section \<open>Properties of the numbers\<close>

lemma bitlen_pos: "0 < n \<Longrightarrow> 1 \<le> bitlen n"
  by (simp add: bitlen_alt_def)

lemma ilog2_bounds:
  assumes "0 < x"
  shows "2 powi (ilog2 x) \<le> x" and "x < 2 powi (ilog2 x + 1)"
proof -
  have "2 powi (ilog2 x) \<le> x \<and> x < 2 powi (ilog2 x + 1)"
  proof (cases "1 \<le> x")
    case True
    define n where "n = \<lfloor>x\<rfloor>"
    have n: "0 < n" using True by (simp add: n_def)
    have b: "1 \<le> bitlen n" using n by (rule bitlen_pos)
    have lo: "2 ^ nat (bitlen n - 1) \<le> n" and hi: "n < 2 ^ nat (bitlen n)"
      using bitlen_bounds[OF n] by simp_all
    have "(2::rat) powi (bitlen n - 1) = of_int (2 ^ nat (bitlen n - 1))"
      using b by (simp add: power_int_def)
    also have "\<dots> \<le> of_int n" using lo by (simp only: of_int_le_iff)
    also have "\<dots> \<le> x" by (simp add: n_def)
    finally have 1: "2 powi (bitlen n - 1) \<le> x" .
    have "n + 1 \<le> 2 ^ nat (bitlen n)" using hi by simp
    then have "(of_int (n + 1) :: rat) \<le> of_int (2 ^ nat (bitlen n))"
      by (simp only: of_int_le_iff)
    moreover have "x < of_int (n + 1)" using floor_correct[of x] by (simp add: n_def)
    moreover have "(2::rat) powi (bitlen n) = of_int (2 ^ nat (bitlen n))"
      using b by (simp add: power_int_def)
    ultimately have 2: "x < 2 powi (bitlen n)" by simp
    show ?thesis using True 1 2 by (simp add: ilog2_def n_def)
  next
    case False
    define y where "y = 1 / x"
    define m where "m = \<lceil>y\<rceil> - 1"
    have y: "1 < y" using False assms by (simp add: y_def)
    then have "1 < \<lceil>y\<rceil>" by (simp add: less_ceiling_iff)
    then have m: "0 < m" by (simp add: m_def)
    have my: "of_int m < y" "y \<le> of_int m + 1"
      using ceiling_correct[of y] by (simp_all add: m_def)
    define j where "j = bitlen m"
    have b: "1 \<le> j" unfolding j_def using m by (rule bitlen_pos)
    have lo: "2 ^ nat (j - 1) \<le> m" and hi: "m < 2 ^ nat j"
      using bitlen_bounds[OF m] by (simp_all add: j_def)
    have x: "x = 1 / y" "0 < y" using assms by (simp_all add: y_def)
    have "m + 1 \<le> 2 ^ nat j" using hi by simp
    then have "(of_int (m + 1) :: rat) \<le> of_int (2 ^ nat j)"
      by (simp only: of_int_le_iff)
    moreover have "y \<le> of_int (m + 1)" using my(2) by simp
    moreover have "(of_int (2 ^ nat j) :: rat) = 2 ^ nat j" by simp
    ultimately have "y \<le> 2 ^ nat j" by linarith
    then have "1 / 2 ^ nat j \<le> 1 / y" using x(2) by (simp add: frac_le)
    moreover have "(2::rat) powi (- j) = 1 / 2 ^ nat j"
      using b by (simp add: power_int_def field_simps)
    ultimately have 1: "2 powi (- j) \<le> x" using x(1) by simp
    have "(of_int (2 ^ nat (j - 1)) :: rat) \<le> of_int m"
      using lo by (simp only: of_int_le_iff)
    moreover have "(of_int (2 ^ nat (j - 1)) :: rat) = 2 ^ nat (j - 1)" by simp
    ultimately have "2 ^ nat (j - 1) < y" using my(1) by linarith
    then have "1 / y < 1 / 2 ^ nat (j - 1)" by (simp add: frac_less2)
    moreover have "(2::rat) powi (- j + 1) = 1 / 2 ^ nat (j - 1)"
    proof (cases "j = 1")
      case True then show ?thesis by simp
    next
      case False
      with b have "- j + 1 < 0" by simp
      then show ?thesis
        by (simp add: power_int_def field_simps)
    qed
    ultimately have 2: "x < 2 powi (- j + 1)" using x(1) by simp
    show ?thesis using False 1 2 by (simp add: ilog2_def y_def m_def j_def)
  qed
  then show "2 powi (ilog2 x) \<le> x" and "x < 2 powi (ilog2 x + 1)" by simp_all
qed

lemma ilog2_eqI:
  assumes "2 powi e \<le> x" and "x < 2 powi (e + 1)"
  shows "ilog2 x = e"
proof -
  have pos: "0 < x" using assms(1) zero_less_power_int[of "2::rat" e] by linarith
  have "2 powi e < (2::rat) powi (ilog2 x + 1)"
    using assms(1) ilog2_bounds(2)[OF pos] by linarith
  then have 1: "e < ilog2 x + 1"
    using power_int_increasing[of "ilog2 x + 1" e "2::rat"] by (cases "e < ilog2 x + 1") auto
  have "2 powi (ilog2 x) < (2::rat) powi (e + 1)"
    using assms(2) ilog2_bounds(1)[OF pos] by linarith
  then have 2: "ilog2 x < e + 1"
    using power_int_increasing[of "e + 1" "ilog2 x" "2::rat"] by (cases "ilog2 x < e + 1") auto
  show ?thesis using 1 2 by simp
qed

lemma ilog2_mono:
  assumes "0 < x" "x \<le> y"
  shows "ilog2 x \<le> ilog2 y"
proof (rule ccontr)
  assume "\<not> ilog2 x \<le> ilog2 y"
  then have "ilog2 y + 1 \<le> ilog2 x" by simp
  then have "(2::rat) powi (ilog2 y + 1) \<le> 2 powi (ilog2 x)"
    by (intro power_int_increasing) simp_all
  moreover have "y < 2 powi (ilog2 y + 1)" using assms by (intro ilog2_bounds) simp
  moreover have "2 powi (ilog2 x) \<le> x" using assms by (intro ilog2_bounds)
  ultimately show False using assms(2) by linarith
qed

lemma rne_cases: "rne x = \<lfloor>x\<rfloor> \<or> rne x = \<lfloor>x\<rfloor> + 1"
  by (simp add: rne_def Let_def)

lemma rne_of_int [simp]: "rne (of_int k) = k"
  by (simp add: rne_def)

lemma rne_mono:
  assumes "x \<le> y"
  shows "rne x \<le> rne y"
proof (cases "\<lfloor>x\<rfloor> = \<lfloor>y\<rfloor>")
  case True
  have "x - of_int \<lfloor>x\<rfloor> \<le> y - of_int \<lfloor>y\<rfloor>" using assms True by simp
  then show ?thesis
    using True by (auto simp: rne_def Let_def)
next
  case False
  then have "\<lfloor>x\<rfloor> + 1 \<le> \<lfloor>y\<rfloor>" using floor_mono[OF assms] by simp
  moreover have "rne x \<le> \<lfloor>x\<rfloor> + 1" using rne_cases[of x] by auto
  moreover have "\<lfloor>y\<rfloor> \<le> rne y" using rne_cases[of y] by auto
  ultimately show ?thesis by simp
qed

lemma rne_minus: "rne (- x) = - rne x"
proof (cases "x = of_int \<lfloor>x\<rfloor>")
  case True
  then obtain k where "x = of_int k" ..
  then have "- x = of_int (- k)" by simp
  then show ?thesis using \<open>x = of_int k\<close> by (simp only: rne_of_int)
next
  case False
  then have lt: "of_int \<lfloor>x\<rfloor> < x" using of_int_floor_le[of x] by linarith
  have fl: "\<lfloor>- x\<rfloor> = - \<lfloor>x\<rfloor> - 1"
    using lt floor_correct[of x] by (intro floor_unique) simp_all
  define r where "r = x - of_int \<lfloor>x\<rfloor>"
  have r: "0 < r" "r < 1" using lt floor_correct[of x] by (simp_all add: r_def)
  have fr: "- x - of_int \<lfloor>- x\<rfloor> = 1 - r" by (simp add: fl r_def)
  show ?thesis
    unfolding rne_def Let_def fr unfolding fl r_def[symmetric] using r
    by (auto simp: field_simps)
qed

lemma round_unbounded_minus: "round_unbounded p emin (- x) = - round_unbounded p emin x"
  by (simp add: round_unbounded_def Let_def rne_minus)

lemma round_unbounded_pos:
  assumes "0 < x"
  shows "round_unbounded p emin x =
           of_int (rne (x / 2 powi (max (ilog2 x) emin - int p + 1)))
             * 2 powi (max (ilog2 x) emin - int p + 1)"
  using assms by (simp add: round_unbounded_def Let_def)

lemma round_unbounded_nonneg:
  assumes "0 \<le> x"
  shows "0 \<le> round_unbounded p emin x"
proof (cases "x = 0")
  case True
  then show ?thesis by (simp add: round_unbounded_def)
next
  case False
  with assms have pos: "0 < x" by simp
  define q :: rat where "q = 2 powi (max (ilog2 x) emin - int p + 1)"
  have q: "0 < q" by (simp add: q_def)
  have "rne 0 \<le> rne (x / q)" using pos q by (intro rne_mono) simp
  then have "0 \<le> rne (x / q)" using rne_of_int[of 0] by simp
  then show ?thesis
    using q by (simp add: round_unbounded_pos[OF pos] q_def[symmetric])
qed

lemma round_unbounded_upper:
  assumes "0 < x"
  shows "round_unbounded p emin x \<le> 2 powi (max (ilog2 x) emin + 1)"
proof -
  define e where "e = max (ilog2 x) emin"
  define q :: rat where "q = 2 powi (e - int p + 1)"
  have q: "0 < q" by (simp add: q_def)
  have split: "(2::rat) powi (e + 1) = 2 ^ p * q"
    by (simp add: q_def power_int_add[symmetric] flip: power_int_of_nat)
  have "x < 2 powi (ilog2 x + 1)" using assms by (rule ilog2_bounds)
  also have "\<dots> \<le> 2 powi (e + 1)"
    by (intro power_int_increasing) (simp_all add: e_def)
  finally have "x < 2 ^ p * q" by (simp only: split)
  then have "x / q < 2 ^ p" using q by (simp add: pos_divide_less_eq)
  then have "rne (x / q) \<le> rne (of_int (2 ^ p))" by (intro rne_mono) simp
  then have "rne (x / q) \<le> 2 ^ p" by (simp only: rne_of_int)
  then have "(of_int (rne (x / q)) :: rat) \<le> of_int (2 ^ p)" by (simp only: of_int_le_iff)
  then have "of_int (rne (x / q)) * q \<le> 2 ^ p * q" using q by simp
  moreover have "round_unbounded p emin x = of_int (rne (x / q)) * q"
    by (simp add: round_unbounded_pos[OF assms] q_def e_def)
  ultimately show ?thesis
    by (simp only: e_def[symmetric] split)
qed

lemma round_unbounded_lower:
  assumes "0 < x" "emin \<le> ilog2 x" "0 < p"
  shows "2 powi (ilog2 x) \<le> round_unbounded p emin x"
proof -
  define e where "e = ilog2 x"
  define q :: rat where "q = 2 powi (e - int p + 1)"
  have q: "0 < q" by (simp add: q_def)
  have m: "max (ilog2 x) emin = e" using assms(2) by (simp add: e_def)
  have "int (p - 1) + (e - int p + 1) = e" using assms(3) by simp
  then have split: "(2::rat) powi e = 2 ^ (p - 1) * q"
    unfolding q_def by (metis power_int_add power_int_of_nat zero_neq_numeral)
  have "2 powi e \<le> x" unfolding e_def using assms(1) by (rule ilog2_bounds)
  then have "2 ^ (p - 1) * q \<le> x" by (simp only: split)
  then have "2 ^ (p - 1) \<le> x / q" using q by (simp add: pos_le_divide_eq)
  then have "rne (of_int (2 ^ (p - 1))) \<le> rne (x / q)" by (intro rne_mono) simp
  then have "2 ^ (p - 1) \<le> rne (x / q)" by (simp only: rne_of_int)
  then have "(of_int (2 ^ (p - 1)) :: rat) \<le> of_int (rne (x / q))" by (simp only: of_int_le_iff)
  then have "2 ^ (p - 1) * q \<le> of_int (rne (x / q)) * q" using q by simp
  moreover have "round_unbounded p emin x = of_int (rne (x / q)) * q"
    using assms(2) by (simp add: round_unbounded_pos[OF assms(1)] q_def e_def max_absorb1)
  ultimately show ?thesis
    by (simp only: e_def[symmetric] split)
qed

lemma round_unbounded_mono_pos:
  assumes "0 < x" "x \<le> y" "0 < p"
  shows "round_unbounded p emin x \<le> round_unbounded p emin y"
proof -
  have y: "0 < y" using assms by simp
  define ex where "ex = max (ilog2 x) emin"
  define ey where "ey = max (ilog2 y) emin"
  have le: "ex \<le> ey" using ilog2_mono[OF assms(1,2)] by (simp add: ex_def ey_def)
  show ?thesis
  proof (cases "ex = ey")
    case True
    define q :: rat where "q = 2 powi (ex - int p + 1)"
    have q: "0 < q" by (simp add: q_def)
    have "rne (x / q) \<le> rne (y / q)" using assms(2) q by (intro rne_mono) (simp add: divide_right_mono)
    then have "(of_int (rne (x / q)) :: rat) \<le> of_int (rne (y / q))" by (simp only: of_int_le_iff)
    then have "of_int (rne (x / q)) * q \<le> of_int (rne (y / q)) * q" using q by simp
    moreover have "round_unbounded p emin x = of_int (rne (x / q)) * q"
      by (simp add: round_unbounded_pos[OF assms(1)] q_def ex_def)
    moreover have "round_unbounded p emin y = of_int (rne (y / q)) * q"
      unfolding q_def True by (simp add: round_unbounded_pos[OF y] ey_def)
    ultimately show ?thesis by (simp only:)
  next
    case False
    with le have lt: "ex + 1 \<le> ey" by simp
    then have "emin < ey" by (simp add: ex_def)
    then have ey: "ey = ilog2 y" "emin \<le> ilog2 y" by (simp_all add: ey_def)
    have "round_unbounded p emin x \<le> 2 powi (ex + 1)"
      unfolding ex_def using assms(1) by (rule round_unbounded_upper)
    also have "\<dots> \<le> 2 powi ey" using lt by (intro power_int_increasing) simp_all
    also have "\<dots> \<le> round_unbounded p emin y"
      unfolding ey(1) using y ey(2) assms(3) by (rule round_unbounded_lower)
    finally show ?thesis .
  qed
qed

lemma round_unbounded_mono:
  assumes "x \<le> y" "0 < p"
  shows "round_unbounded p emin x \<le> round_unbounded p emin y"
proof -
  consider "0 < x" | "x \<le> 0" "0 \<le> y" | "y < 0" using assms(1) by linarith
  then show ?thesis
  proof cases
    case 1
    then show ?thesis using assms by (rule round_unbounded_mono_pos)
  next
    case 2
    have "round_unbounded p emin x = - round_unbounded p emin (- x)"
      by (simp add: round_unbounded_minus)
    moreover have "0 \<le> round_unbounded p emin (- x)"
      using 2(1) by (intro round_unbounded_nonneg) simp
    moreover have "0 \<le> round_unbounded p emin y"
      using 2(2) by (rule round_unbounded_nonneg)
    ultimately show ?thesis by linarith
  next
    case 3
    have "round_unbounded p emin (- y) \<le> round_unbounded p emin (- x)"
      using 3 assms by (intro round_unbounded_mono_pos) simp_all
    then show ?thesis by (simp add: round_unbounded_minus)
  qed
qed

lemma round_unbounded_eval:
  assumes "2 powi e \<le> x" and "x < 2 powi (e + 1)"
  shows "round_unbounded p emin x =
           of_int (rne (x / 2 powi (max e emin - int p + 1))) * 2 powi (max e emin - int p + 1)"
proof -
  have pos: "0 < x" using assms(1) zero_less_power_int[of "2::rat" e] by linarith
  have "ilog2 x = e" using assms by (rule ilog2_eqI)
  then show ?thesis by (simp add: round_unbounded_pos[OF pos])
qed

lemma round_to_bounded:
  assumes "lo \<le> x" "x \<le> hi" "0 < p"
      and "round_unbounded p emin lo = lo" "round_unbounded p emin hi = hi"
      and "- (2 powi (emax + 1)) < lo" "hi < 2 powi (emax + 1)"
  shows "\<exists>r. round_to p emin emax x = Val r \<and> lo \<le> r \<and> r \<le> hi"
proof -
  define r where "r = round_unbounded p emin x"
  have "round_unbounded p emin lo \<le> r" unfolding r_def using assms(1,3) by (rule round_unbounded_mono)
  then have 1: "lo \<le> r" using assms(4) by simp
  have "r \<le> round_unbounded p emin hi" unfolding r_def using assms(2,3) by (rule round_unbounded_mono)
  then have 2: "r \<le> hi" using assms(5) by simp
  have "\<bar>r\<bar> < 2 powi (emax + 1)" using 1 2 assms(6,7) by linarith
  then have "round_to p emin emax x = Val r"
    by (simp add: round_to_def r_def[symmetric])
  then show ?thesis using 1 2 by blast
qed

lemma floor_rat_numeral_div [simp]:
  "\<lfloor>numeral a / numeral b :: rat\<rfloor> = numeral a div numeral b"
  by (metis floor_divide_of_int_eq of_int_numeral)

lemma floor_rat_neg_numeral_div [simp]:
  "\<lfloor>- (numeral a / numeral b) :: rat\<rfloor> = - numeral a div numeral b"
  by (metis floor_divide_of_int_eq minus_divide_left of_int_neg_numeral of_int_numeral)

lemma round64_PI64: "round_unbounded 53 (- 1022) PI64 = PI64"
  by (subst round_unbounded_eval[where e = 1]) (simp_all add: PI64_def rne_def Let_def)

lemma round64_2PI64: "round_unbounded 53 (- 1022) (2 * PI64) = 2 * PI64"
  by (subst round_unbounded_eval[where e = 2]) (simp_all add: PI64_def rne_def Let_def)

lemma round32_PI64: "round_unbounded 24 (- 126) PI64 = PI32"
  by (subst round_unbounded_eval[where e = 1]) (simp_all add: PI64_def PI32_def rne_def Let_def)

lemma round32_PI32: "round_unbounded 24 (- 126) PI32 = PI32"
  by (subst round_unbounded_eval[where e = 1]) (simp_all add: PI32_def rne_def Let_def)

text \<open>
  The number \<open>\<pi>\<close> lies between \<open>Math.PI\<close> and the value that \<open>Math.PI\<close> takes in a
  \<open>Float32Array\<close>. The bounds come from Machin's formula and the alternating series of the
  arc tangent.
\<close>

lemma arctan_bounds:
  fixes x :: real
  assumes "0 \<le> x" and "x \<le> 1"
  shows "(\<Sum>i<2 * n. (- 1) ^ i * (1 / real (i * 2 + 1) * x ^ (i * 2 + 1))) \<le> arctan x"
    and "arctan x \<le> (\<Sum>i<2 * n + 1. (- 1) ^ i * (1 / real (i * 2 + 1) * x ^ (i * 2 + 1)))"
proof -
  define a where "a = (\<lambda>n. 1 / real (n * 2 + 1) * x ^ (n * 2 + 1))"
  have z: "a \<longlonglongrightarrow> 0"
    unfolding a_def using assms by (intro zeroseq_arctan_series) simp
  have p: "0 \<le> a n" for n using assms by (simp add: a_def)
  have m: "a (Suc n) \<le> a n" for n
  proof -
    have "x ^ (Suc n * 2 + 1) \<le> x ^ (n * 2 + 1)"
      using assms by (intro power_decreasing) simp_all
    moreover have "1 / real (Suc n * 2 + 1) \<le> 1 / real (n * 2 + 1)"
      by (intro divide_left_mono) simp_all
    ultimately show ?thesis
      unfolding a_def using assms by (intro mult_mono) simp_all
  qed
  have s: "arctan x = (\<Sum>k. (- 1) ^ k * a k)"
    unfolding a_def using assms by (intro arctan_series) simp
  show "(\<Sum>i<2 * n. (- 1) ^ i * (1 / real (i * 2 + 1) * x ^ (i * 2 + 1))) \<le> arctan x"
    using summable_Leibniz'(2)[OF z p m, of n] by (simp add: s a_def)
  show "arctan x \<le> (\<Sum>i<2 * n + 1. (- 1) ^ i * (1 / real (i * 2 + 1) * x ^ (i * 2 + 1)))"
    using summable_Leibniz'(4)[OF z p m, of n] by (simp add: s a_def)
qed

lemma scale_bounds:
  fixes a b U L :: real
  assumes "a \<le> U" and "L \<le> b"
  shows "16 * a - 4 * b \<le> 16 * U - 4 * L"
  using assms by linarith

lemma pi_less_PI32: "pi < real_of_rat PI32"
proof -
  have u: "arctan (1 / 5) \<le> 1 / 5 - 1 / 375 + 1 / 15625 - 1 / 546875 + 1 / 17578125"
    using arctan_bounds(2)[of "1 / 5" 2] by (simp add: lessThan_Suc numeral_eq_Suc)
  have l: "1 / 239 - 1 / 40955757 \<le> arctan (1 / 239)"
    using arctan_bounds(1)[of "1 / 239" 1] by (simp add: lessThan_Suc numeral_eq_Suc)
  have "pi = 16 * arctan (1 / 5) - 4 * arctan (1 / 239)"
    using machin by simp
  also have "\<dots> \<le> 16 * (1 / 5 - 1 / 375 + 1 / 15625 - 1 / 546875 + 1 / 17578125)
                   - 4 * (1 / 239 - 1 / 40955757)"
    using u l by (rule scale_bounds)
  also have "\<dots> < real_of_rat PI32"
    by (simp add: PI32_def of_rat_divide)
  finally show ?thesis .
qed

lemma scale_bounds':
  fixes a b U L :: real
  assumes "L \<le> a" and "b \<le> U"
  shows "16 * L - 4 * U \<le> 16 * a - 4 * b"
  using assms by linarith

lemma PI64_less_pi: "real_of_rat PI64 < pi"
proof -
  have l: "157490522761940959144868 / 797842276096343994140625 \<le> arctan (1 / 5)"
    using arctan_bounds(1)[of "1 / 5" 6] by (simp add: lessThan_Suc numeral_eq_Suc)
  have u: "arctan (1 / 239) \<le> 48941844013 / 11697168977985"
    using arctan_bounds(2)[of "1 / 239" 1] by (simp add: lessThan_Suc numeral_eq_Suc)
  have "real_of_rat PI64 < 16 * (157490522761940959144868 / 797842276096343994140625)
                   - 4 * (48941844013 / 11697168977985)"
    by (simp add: PI64_def of_rat_divide)
  also have "\<dots> \<le> 16 * arctan (1 / 5) - 4 * arctan (1 / 239)"
    using l u by (rule scale_bounds')
  also have "\<dots> = pi"
    using machin by simp
  finally show ?thesis .
qed

section \<open>Properties of the Sample Loader\<close>

declare readIq_loop.simps [simp del] readCU8File_loop.simps [simp del]

lemma readIq_loop_length:
  "length (I (readIq_loop buffer len i st)) = length (I st) \<and>
   length (Q (readIq_loop buffer len i st)) = length (Q st)"
proof (induction buffer len i st rule: readIq_loop.induct)
  case (1 buffer len i st)
  show ?case
  proof (cases "of_int i < len")
    case True
    with 1 show ?thesis
      by (subst (1 2) readIq_loop.simps) (simp add: ta_set_def)
  next
    case False
    then show ?thesis by (subst (1 2) readIq_loop.simps) simp
  qed
qed

lemma ta_set_nth:
  "j < length xs \<Longrightarrow> ta_set xs i v ! j = (if i = int j then v else xs ! j)"
  by (auto simp: ta_set_def nth_list_update)

lemma ta_set_length [simp]: "length (ta_set xs i v) = length xs"
  by (simp add: ta_set_def)

lemma readIq_loop_nth:
  "(j < length (I st) \<longrightarrow>
     I (readIq_loop buffer len i st) ! j =
       (if i \<le> int j \<and> of_nat j < len then toUint8 (ta_get buffer (2 * int j)) else I st ! j)) \<and>
   (j < length (Q st) \<longrightarrow>
     Q (readIq_loop buffer len i st) ! j =
       (if i \<le> int j \<and> of_nat j < len then toUint8 (ta_get buffer (2 * int j + 1)) else Q st ! j))"
proof (induction buffer len i st rule: readIq_loop.induct)
  case (1 buffer len i st)
  show ?case
  proof (cases "of_int i < len")
    case True
    define st' where "st' = \<lparr>I = ta_set (I st) i (toUint8 (ta_get buffer (2 * i))),
              Q = ta_set (Q st) i (toUint8 (ta_get buffer (2 * i + 1)))\<rparr>"
    have step: "readIq_loop buffer len i st = readIq_loop buffer len (i + 1) st'"
      using True by (subst readIq_loop.simps) (simp add: st'_def)
    have ih: "(j < length (I st') \<longrightarrow>
     I (readIq_loop buffer len (i + 1) st') ! j =
       (if i + 1 \<le> int j \<and> of_nat j < len then toUint8 (ta_get buffer (2 * int j)) else I st' ! j)) \<and>
   (j < length (Q st') \<longrightarrow>
     Q (readIq_loop buffer len (i + 1) st') ! j =
       (if i + 1 \<le> int j \<and> of_nat j < len then toUint8 (ta_get buffer (2 * int j + 1)) else Q st' ! j))"
      using "1.IH"[OF True] by (simp add: st'_def)
    have eqj: "i = int j \<Longrightarrow> of_nat j < len" using True by auto
    show ?thesis
      unfolding step using ih eqj by (auto simp: st'_def ta_set_nth)
  next
    case False
    then have neg: "\<not> (i \<le> int j \<and> of_nat j < len)"
      by (metis of_int_of_nat_eq of_int_le_iff order_le_less_trans)
    have stop: "readIq_loop buffer len i st = st"
      using False by (subst readIq_loop.simps) simp
    show ?thesis unfolding stop using neg by auto
  qed
qed

lemma readIq_value:
  assumes "disk file = Some buffer"
  shows "readIq disk file =
           Inr \<lparr>I = map (\<lambda>i. buffer ! (2 * i)) [0..<length buffer div 2],
                Q = map (\<lambda>i. buffer ! (2 * i + 1)) [0..<length buffer div 2]\<rparr>"
proof -
  define len :: rat where "len = of_nat (length buffer) / 2"
  define st0 :: "byte iq" where "st0 = \<lparr>I = newArray len, Q = newArray len\<rparr>"
  define r where "r = readIq_loop buffer len 0 st0"
  have fl: "nat \<lfloor>len\<rfloor> = length buffer div 2"
    unfolding len_def by (metis floor_divide_of_nat_eq nat_int of_nat_numeral)
  have l0: "length (I st0) = length buffer div 2" "length (Q st0) = length buffer div 2"
    by (simp_all add: st0_def newArray_def fl)
  have lr: "length (I r) = length buffer div 2" "length (Q r) = length buffer div 2"
    using readIq_loop_length[of buffer len 0 st0] l0 by (simp_all add: r_def)
  have inlen: "of_nat j < len" if "j < length buffer div 2" for j
  proof -
    have "2 * j < length buffer" using that by simp
    then have "(of_nat (2 * j) :: rat) < of_nat (length buffer)" by (simp only: of_nat_less_iff)
    then show ?thesis by (simp add: len_def)
  qed
  have nI: "I r ! j = buffer ! (2 * j)" if "j < length buffer div 2" for j
  proof -
    have "2 * j < length buffer" using that by simp
    then have "ta_get buffer (2 * int j) = Some (buffer ! (2 * j))"
      by (simp add: ta_get_def nat_mult_distrib)
    then show ?thesis
      using readIq_loop_nth[of j st0 buffer len 0] that l0 inlen[OF that]
      by (simp add: r_def toUint8_def)
  qed
  have nQ: "Q r ! j = buffer ! (2 * j + 1)" if "j < length buffer div 2" for j
  proof -
    have "2 * j + 1 < length buffer" using that by simp
    then have "ta_get buffer (2 * int j + 1) = Some (buffer ! (2 * j + 1))"
      by (simp add: ta_get_def nat_add_distrib nat_mult_distrib)
    then show ?thesis
      using readIq_loop_nth[of j st0 buffer len 0] that l0 inlen[OF that]
      by (simp add: r_def toUint8_def)
  qed
  have "I r = map (\<lambda>i. buffer ! (2 * i)) [0..<length buffer div 2]"
    by (rule nth_equalityI) (simp_all add: lr nI)
  moreover have "Q r = map (\<lambda>i. buffer ! (2 * i + 1)) [0..<length buffer div 2]"
    by (rule nth_equalityI) (simp_all add: lr nQ)
  ultimately have "r = \<lparr>I = map (\<lambda>i. buffer ! (2 * i)) [0..<length buffer div 2],
                Q = map (\<lambda>i. buffer ! (2 * i + 1)) [0..<length buffer div 2]\<rparr>"
    by simp
  then show ?thesis
    using assms by (simp add: readIq_def readFileSync_def r_def st0_def len_def)
qed

lemma readCU8File_loop_eq: "readCU8File_loop buffer n i st = readIq_loop buffer n i st"
proof (induction buffer n i st rule: readIq_loop.induct)
  case (1 buffer len i st)
  show ?case
  proof (cases "of_int i < len")
    case True
    with 1 show ?thesis
      by (subst readCU8File_loop.simps, subst readIq_loop.simps) simp
  next
    case False
    then show ?thesis
      by (subst readCU8File_loop.simps, subst readIq_loop.simps) simp
  qed
qed

lemma readCU8File_eq: "readCU8File disk file = readIq disk file"
  by (simp add: readCU8File_def readIq_def readCU8File_loop_eq split: sum.splits)

text \<open>
  Claim C7. For a buffer of even length \<open>2 * n\<close> the loader, in both programs, returns two
  channels of length \<open>n\<close> with \<open>I[i] = buffer[2i]\<close> and \<open>Q[i] = buffer[2i+1]\<close> for
  every \<open>i < n\<close>.
\<close>

theorem loader_even_length:
  assumes "disk file = Some buffer" and "length buffer = 2 * n"
  shows "\<exists>raw. readIq disk file = Inr raw \<and> readCU8File disk file = Inr raw \<and>
           length (I raw) = n \<and> length (Q raw) = n \<and>
           (\<forall>i<n. I raw ! i = buffer ! (2 * i) \<and> Q raw ! i = buffer ! (2 * i + 1))"
  using assms by (simp add: readCU8File_eq readIq_value)

theorem loader_even_length_witness:
  "[''a.cu8'' \<mapsto> [10, 20, 30, 40 :: byte]] ''a.cu8'' = Some [10, 20, 30, 40] \<and>
   length [10, 20, 30, 40 :: byte] = 2 * 2 \<and>
   readIq [''a.cu8'' \<mapsto> [10, 20, 30, 40]] ''a.cu8'' = Inr \<lparr>I = [10, 30], Q = [20, 40]\<rparr> \<and>
   readCU8File [''a.cu8'' \<mapsto> [10, 20, 30, 40]] ''a.cu8'' = Inr \<lparr>I = [10, 30], Q = [20, 40]\<rparr>"
  using loader_even_length [of "[''a.cu8'' \<mapsto> [10, 20, 30, 40]]" "''a.cu8''" "[10, 20, 30, 40]" 2]
  by (simp add: readCU8File_eq readIq_value upt_rec)

text \<open>
  Claim C1. For a buffer with an odd number of bytes the loader does not fail: it returns two
  channels of length \<open>\<lfloor>bytes / 2\<rfloor>\<close>, filled from the pairs of the buffer, and the result
  is the one it returns for the buffer without its last byte. The loop does run once more,
  for the dangling byte, and the typed arrays ignore that write.
\<close>

theorem loader_odd_length:
  assumes "disk file = Some buffer" and "odd (length buffer)"
  shows "\<exists>raw. readIq disk file = Inr raw \<and> readCU8File disk file = Inr raw \<and>
           length (I raw) = length buffer div 2 \<and> length (Q raw) = length buffer div 2 \<and>
           (\<forall>i < length buffer div 2. I raw ! i = buffer ! (2 * i) \<and> Q raw ! i = buffer ! (2 * i + 1)) \<and>
           readIq (disk(file \<mapsto> butlast buffer)) file = Inr raw"
proof -
  have d: "(length buffer - 1) div 2 = length buffer div 2"
    using assms(2) by presburger
  have a: "butlast buffer ! (2 * i) = buffer ! (2 * i)"
          "butlast buffer ! (2 * i + 1) = buffer ! (2 * i + 1)" if "i < length buffer div 2" for i
  proof -
    have "2 * i + 1 < length buffer - 1" using that assms(2) by presburger
    then show "butlast buffer ! (2 * i) = buffer ! (2 * i)"
          "butlast buffer ! (2 * i + 1) = buffer ! (2 * i + 1)"
      by (simp_all add: nth_butlast)
  qed
  have "map (\<lambda>i. butlast buffer ! (2 * i)) [0..<length buffer div 2] =
        map (\<lambda>i. buffer ! (2 * i)) [0..<length buffer div 2]"
       "map (\<lambda>i. butlast buffer ! (2 * i + 1)) [0..<length buffer div 2] =
        map (\<lambda>i. buffer ! (2 * i + 1)) [0..<length buffer div 2]"
    using a by (simp_all del: One_nat_def add: map_eq_conv)
  moreover have "readIq (disk(file \<mapsto> butlast buffer)) file =
      Inr \<lparr>I = map (\<lambda>i. butlast buffer ! (2 * i)) [0..<length (butlast buffer) div 2],
                Q = map (\<lambda>i. butlast buffer ! (2 * i + 1)) [0..<length (butlast buffer) div 2]\<rparr>"
    using readIq_value[of "disk(file \<mapsto> butlast buffer)" "file" "butlast buffer"] by simp
  moreover have "length (butlast buffer) div 2 = length buffer div 2"
    using d by simp
  ultimately have "readIq (disk(file \<mapsto> butlast buffer)) file = readIq disk file"
    using readIq_value[of disk "file" buffer] assms(1) by (simp only:)
  then show ?thesis
    using assms(1) by (simp add: readCU8File_eq readIq_value)
qed

theorem loader_odd_length_witness:
  "[''a.cu8'' \<mapsto> [10, 20, 30, 40, 50 :: byte]] ''a.cu8'' = Some [10, 20, 30, 40, 50] \<and>
   odd (length [10, 20, 30, 40, 50 :: byte]) \<and>
   readIq [''a.cu8'' \<mapsto> [10, 20, 30, 40, 50]] ''a.cu8'' = Inr \<lparr>I = [10, 30], Q = [20, 40]\<rparr> \<and>
   readCU8File [''a.cu8'' \<mapsto> [10, 20, 30, 40, 50]] ''a.cu8'' = Inr \<lparr>I = [10, 30], Q = [20, 40]\<rparr>"
  using loader_odd_length [of "[''a.cu8'' \<mapsto> [10, 20, 30, 40, 50]]" "''a.cu8''" "[10, 20, 30, 40, 50]"]
  by (simp add: readCU8File_eq readIq_value upt_rec)

section \<open>Properties of the Interval Extractor\<close>

lemma scan_inv_step:
  assumes "n < length flags" and "scan_inv flags minLen n st"
  shows "scan_inv flags minLen (Suc n) (findIntervals_step minLen (flags ! n) (int n) st)"
proof (cases st)
  case (Pair start ivs)
  show ?thesis
  proof (cases start)
    case None
    have one: "nat j = n" if "int n \<le> j" "j < 1 + int n" for j
      using that by linarith
    from None Pair assms show ?thesis
      by (auto simp: scan_inv_def findIntervals_step_def one)
  next
    case (Some s)
    show ?thesis
    proof (cases "flags ! n")
      case True
      have "\<forall>j \<in> {s ..< int (Suc n)}. flags ! nat j"
      proof
        fix j assume j: "j \<in> {s ..< int (Suc n)}"
        show "flags ! nat j"
        proof (cases "j = int n")
          case True
          with \<open>flags ! n\<close> show ?thesis by simp
        next
          case False
          with j have "j \<in> {s ..< int n}" by auto
          with assms(2) Pair Some show ?thesis by (auto simp: scan_inv_def)
        qed
      qed
      with True Pair Some assms show ?thesis
        by (auto simp: scan_inv_def findIntervals_step_def)
    next
      case False
      have ok: "interval_ok flags minLen (s, int n - 1)" if "minLen \<le> int n - s"
        using that assms Pair Some
        by (auto simp: scan_inv_def interval_ok_def)
      with False Pair Some assms show ?thesis
        by (auto simp: scan_inv_def findIntervals_step_def sorted_wrt_append)
    qed
  qed
qed

lemma scan_inv_forEach:
  assumes "scan_inv flags minLen n st" and "n \<le> length flags"
  shows "scan_inv flags minLen (length flags)
           (findIntervals_forEach minLen (drop n flags) (int n) st)"
  using assms
proof (induction "length flags - n" arbitrary: n st)
  case 0
  then show ?case by simp
next
  case (Suc d)
  then have lt: "n < length flags" by simp
  then have dr: "drop n flags = flags ! n # drop (Suc n) flags"
    by (simp add: Cons_nth_drop_Suc)
  have "scan_inv flags minLen (length flags)
          (findIntervals_forEach minLen (drop (Suc n) flags) (int (Suc n))
             (findIntervals_step minLen (flags ! n) (int n) st))"
    using Suc.hyps(1)[of "Suc n"] Suc.hyps(2) scan_inv_step[OF lt Suc.prems(1)] lt by simp
  then show ?case
    by (simp add: dr add.commute)
qed

lemma findIntervals_ok:
  "(\<forall>iv \<in> set (findIntervals flags minLen). interval_ok flags minLen iv) \<and>
   sorted_wrt (\<lambda>a b. snd a < fst b) (findIntervals flags minLen)"
proof -
  obtain start ivs where r: "findIntervals_forEach minLen flags 0 (None, []) = (start, ivs)"
    by (cases "findIntervals_forEach minLen flags 0 (None, [])")
  have "scan_inv flags minLen 0 (None, [])" by (simp add: scan_inv_def)
  from scan_inv_forEach[OF this, of ] r
  have inv: "scan_inv flags minLen (length flags) (start, ivs)" by simp
  show ?thesis
  proof (cases start)
    case None
    with inv r show ?thesis by (auto simp: findIntervals_def scan_inv_def)
  next
    case (Some s)
    have "interval_ok flags minLen (s, int (length flags) - 1)" if "minLen \<le> int (length flags) - s"
      using that inv Some by (auto simp: scan_inv_def interval_ok_def)
    with inv r Some show ?thesis
      by (auto simp: findIntervals_def scan_inv_def sorted_wrt_append)
  qed
qed

lemma findSignalIntervals_step_abs:
  "findIntervals_step minLen (truthy v) i (scan_abs st) =
     scan_abs (findSignalIntervals_step minLen v i st)"
  by (cases st) (auto simp: scan_abs_def findIntervals_step_def findSignalIntervals_step_def)

lemma findSignalIntervals_for_abs:
  "findIntervals_forEach minLen (map truthy vs) i (scan_abs st) =
     scan_abs (findSignalIntervals_for minLen vs i st)"
  by (induction vs arbitrary: i st) (simp_all add: findSignalIntervals_step_abs)

lemma findSignalIntervals_eq:
  "findSignalIntervals vs minLen = findIntervals (map truthy vs) minLen"
proof -
  obtain inSig start ivs where r: "findSignalIntervals_for minLen vs 0 (False, 0, []) = (inSig, start, ivs)"
    by (cases "findSignalIntervals_for minLen vs 0 (False, 0, [])")
  have "findIntervals_forEach minLen (map truthy vs) 0 (scan_abs (False, 0, [])) = scan_abs (inSig, start, ivs)"
    by (simp only: findSignalIntervals_for_abs r)
  then have "findIntervals_forEach minLen (map truthy vs) 0 (None, []) = (if inSig then Some start else None, ivs)"
    by (simp add: scan_abs_def)
  then show ?thesis
    using r by (simp add: findSignalIntervals_def findIntervals_def)
qed

lemma sorted_wrt_nth:
  "sorted_wrt P xs \<Longrightarrow> k < l \<Longrightarrow> l < length xs \<Longrightarrow> P (xs ! k) (xs ! l)"
  by (simp add: sorted_wrt_iff_nth_less)

text \<open>
  Claim C5. For every mask and every minimum length, each interval the extractor returns lies
  inside the mask, has the mask true at every sample from its start to its end, and is at
  least as long as the minimum; the intervals are ordered by start and pairwise disjoint (each
  ends before the next one starts). The scan of the second program returns the same list. On
  the mask of the specification's example with minimum length 3 the result is
  \<open>[[1,3],[9,12]]\<close>.
\<close>

theorem intervals_sound:
  "(\<forall>k < length (findIntervals flags minLen).
      0 \<le> fst (findIntervals flags minLen ! k) \<and>
      fst (findIntervals flags minLen ! k) \<le> snd (findIntervals flags minLen ! k) \<and>
      snd (findIntervals flags minLen ! k) < int (length flags) \<and>
      (\<forall>j. fst (findIntervals flags minLen ! k) \<le> j \<and> j \<le> snd (findIntervals flags minLen ! k)
            \<longrightarrow> flags ! nat j) \<and>
      minLen \<le> snd (findIntervals flags minLen ! k) - fst (findIntervals flags minLen ! k) + 1) \<and>
   (\<forall>k l. k < l \<and> l < length (findIntervals flags minLen) \<longrightarrow>
      fst (findIntervals flags minLen ! k) < fst (findIntervals flags minLen ! l) \<and>
      snd (findIntervals flags minLen ! k) < fst (findIntervals flags minLen ! l) \<and>
      {fst (findIntervals flags minLen ! k) .. snd (findIntervals flags minLen ! k)} \<inter>
      {fst (findIntervals flags minLen ! l) .. snd (findIntervals flags minLen ! l)} = {}) \<and>
   findSignalIntervals (map (\<lambda>f. if f then 1 else 0) flags) minLen = findIntervals flags minLen \<and>
   findIntervals [False, True, True, True, False, True, True, False, False, True, True, True, True] 3
     = [(1, 3), (9, 12)]"
proof (intro conjI allI impI)
  fix k assume k: "k < length (findIntervals flags minLen)"
  then have ok: "interval_ok flags minLen (findIntervals flags minLen ! k)"
    using findIntervals_ok[of flags minLen] by simp
  show "0 \<le> fst (findIntervals flags minLen ! k)"
    and "fst (findIntervals flags minLen ! k) \<le> snd (findIntervals flags minLen ! k)"
    and "snd (findIntervals flags minLen ! k) < int (length flags)"
    and "minLen \<le> snd (findIntervals flags minLen ! k) - fst (findIntervals flags minLen ! k) + 1"
    using ok by (simp_all add: interval_ok_def)
  fix j assume "fst (findIntervals flags minLen ! k) \<le> j \<and> j \<le> snd (findIntervals flags minLen ! k)"
  then show "flags ! nat j" using ok by (simp add: interval_ok_def)
next
  fix k l assume kl: "k < l \<and> l < length (findIntervals flags minLen)"
  then have lt: "snd (findIntervals flags minLen ! k) < fst (findIntervals flags minLen ! l)"
    using findIntervals_ok[of flags minLen] sorted_wrt_nth[of "\<lambda>a b. snd a < fst b" "findIntervals flags minLen" k l]
    by simp
  have "interval_ok flags minLen (findIntervals flags minLen ! k)"
    using kl findIntervals_ok[of flags minLen] by simp
  then have le: "fst (findIntervals flags minLen ! k) \<le> snd (findIntervals flags minLen ! k)"
    by (simp add: interval_ok_def)
  show "snd (findIntervals flags minLen ! k) < fst (findIntervals flags minLen ! l)" by (rule lt)
  show "fst (findIntervals flags minLen ! k) < fst (findIntervals flags minLen ! l)"
    using lt le by simp
  show "{fst (findIntervals flags minLen ! k) .. snd (findIntervals flags minLen ! k)} \<inter>
      {fst (findIntervals flags minLen ! l) .. snd (findIntervals flags minLen ! l)} = {}"
    using lt by auto
next
  have "map truthy (map (\<lambda>f. if f then 1 else 0) flags) = flags"
    by (induction flags) (simp_all add: truthy_def)
  then show "findSignalIntervals (map (\<lambda>f. if f then 1 else 0) flags) minLen = findIntervals flags minLen"
    by (simp add: findSignalIntervals_eq)
next
  show "findIntervals [False, True, True, True, False, True, True, False, False, True, True, True, True] 3
     = [(1, 3), (9, 12)]"
    by (simp add: findIntervals_def findIntervals_step_def)
qed

theorem intervals_sound_witness:
  "(0::nat) < 1 \<and>
   1 < length (findIntervals [False, True, True, True, False, True, True, False, False, True, True, True, True] 3) \<and>
   findIntervals [False, True, True, True, False, True, True, False, False, True, True, True, True] 3 ! 0 = (1, 3) \<and>
   findIntervals [False, True, True, True, False, True, True, False, False, True, True, True, True] 3 ! 1 = (9, 12) \<and>
   findSignalIntervals [0, 1, 1, 1, 0, 1, 1, 0, 0, 1, 1, 1, 1] 3 = [(1, 3), (9, 12)]"
  using intervals_sound [of "[False, True, True, True, False, True, True, False, False, True, True, True, True]" 3]
  by (simp add: findIntervals_def findIntervals_step_def)

section \<open>Properties of the Frame Parser\<close>

declare binToHex_loop.simps [simp del] radixStr.simps [simp del]

lemmas field_lengths =
  PREAMBLE_LENGTH_def SYNC_WORD_LENGTH_def DEVICE_ID_LENGTH_def COMMAND_LENGTH_def
  BATTERY_LENGTH_def

lemma lookup_COMMANDS:
  "lookupOr COMMANDS c ''UNKNOWN'' =
     (if c = ''001'' then ''OPEN'' else if c = ''010'' then ''CLOSE'' else ''UNKNOWN'')"
  by (simp add: lookupOr_def COMMANDS_def)

lemma lookup_BATTERY_STATUS:
  "lookupOr BATTERY_STATUS b ''UNKNOWN'' =
     (if b = ''1'' then ''OK'' else if b = ''0'' then ''LOW'' else ''UNKNOWN'')"
  by (simp add: lookupOr_def BATTERY_STATUS_def)

lemma parse_fields:
  "parse f =
     \<lparr>sync = take 16 (drop 24 f),
      deviceId = ''0x'' @ binToHex (take 20 (drop 40 f)),
      command = (if take 3 (drop 60 f) = ''001'' then ''OPEN''
                 else if take 3 (drop 60 f) = ''010'' then ''CLOSE'' else ''UNKNOWN''),
      battery = (if take 1 (drop 63 f) = ''1'' then ''OK''
                 else if take 1 (drop 63 f) = ''0'' then ''LOW'' else ''UNKNOWN'')\<rparr>"
  by (simp add: parse_def str_slice_def field_lengths lookup_COMMANDS lookup_BATTERY_STATUS Let_def)

lemma binaryValue_snoc:
  "binaryValue (ds @ [c]) = 2 * binaryValue ds + (if c = CHR ''1'' then 1 else 0)"
  by (simp add: binaryValue_def)

lemma binaryValue_bounds: "0 \<le> binaryValue ds \<and> binaryValue ds < 2 ^ length ds"
proof (induction ds rule: rev_induct)
  case Nil
  show ?case by (simp add: binaryValue_def)
next
  case (snoc c ds)
  then show ?case by (auto simp: binaryValue_snoc)
qed

lemma parseInt2_bits:
  assumes "ds \<noteq> []" and "\<forall>c \<in> set ds. isBinaryDigit c"
  shows "parseInt2 ds = Some (binaryValue ds)"
proof -
  obtain c r where ds: "ds = c # r" using assms(1) by (cases ds) auto
  have c: "isBinaryDigit c" using assms(2) ds by simp
  then have nw: "\<not> isWhiteSpace c" "c \<noteq> CHR ''-''" "c \<noteq> CHR ''+''"
    by (auto simp: isBinaryDigit_def isWhiteSpace_def)
  have tw: "takeWhile isBinaryDigit ds = ds"
    using assms(2) by (simp add: takeWhile_eq_all_conv)
  have "dropWhile isWhiteSpace ds = ds" using nw ds by simp
  then show ?thesis
    using nw tw ds by (simp add: parseInt2_def Let_def)
qed

lemma radixStr_digit: "n < 16 \<Longrightarrow> radixStr 16 n = [digitChar n]"
  by (subst radixStr.simps) simp

lemma nibble_hex:
  assumes "length ds = 4" and "\<forall>c \<in> set ds. isBinaryDigit c"
  shows "numToString 16 (parseInt2 ds) = [digitChar (nat (binaryValue ds))]"
proof -
  have "ds \<noteq> []" using assms(1) by auto
  then have p: "parseInt2 ds = Some (binaryValue ds)" using assms(2) by (rule parseInt2_bits)
  have "0 \<le> binaryValue ds" "binaryValue ds < 16"
    using binaryValue_bounds[of ds] assms(1) by simp_all
  then show ?thesis
    by (simp add: p numToString_def radixStr_digit)
qed

lemma binToHex_20:
  assumes "length dev = 20" and "\<forall>c \<in> set dev. isBinaryDigit c"
  shows "binToHex dev =
           [hexDigit (take 4 dev), hexDigit (take 4 (drop 4 dev)), hexDigit (take 4 (drop 8 dev)),
            hexDigit (take 4 (drop 12 dev)), hexDigit (take 4 (drop 16 dev))]"
proof -
  have pad: "padStart dev (nat \<lceil>(of_nat (length dev) :: rat) / 4\<rceil> * 4) CHR ''0'' = dev"
    using assms(1) by (simp add: padStart_def)
  have nib: "numToString 16 (parseInt2 (str_slice dev i (i + 4))) = [hexDigit (take 4 (drop i dev))]"
    if "i + 4 \<le> 20" for i
  proof -
    have "length (take 4 (drop i dev)) = 4" using that assms(1) by simp
    moreover have "\<forall>c \<in> set (take 4 (drop i dev)). isBinaryDigit c"
      using assms(2) by (meson in_set_dropD in_set_takeD)
    ultimately show ?thesis
      using nibble_hex[of "take 4 (drop i dev)"] by (simp add: str_slice_def hexDigit_def)
  qed
  have "binToHex_loop dev 0 [] =
          [hexDigit (take 4 dev), hexDigit (take 4 (drop 4 dev)), hexDigit (take 4 (drop 8 dev)),
            hexDigit (take 4 (drop 12 dev)), hexDigit (take 4 (drop 16 dev))]"
    using assms(1) nib[of 0] nib[of 4] nib[of 8] nib[of 12] nib[of 16]
    by (simp add: binToHex_loop.simps[of dev])
  then show ?thesis
    by (simp add: binToHex_def pad)
qed

lemma processFile_frame_filter:
  "foldl processFile_frame w fs =
     foldl processFile_frame w (filter (\<lambda>f. sync (parse f) = SYNC_WORD) fs)"
  by (induction fs arbitrary: w) (simp_all add: processFile_frame_def Let_def)

lemma binaryValue_inj_rev:
  assumes "length a = length b"
      and "list_all isBinaryDigit a" "list_all isBinaryDigit b"
      and "binaryValue (rev a) = binaryValue (rev b)"
  shows "a = b"
  using assms
proof (induction a b rule: list_induct2)
  case Nil
  show ?case by simp
next
  case (Cons x xs y ys)
  from Cons.prems(3)
  have e: "2 * binaryValue (rev xs) + (if x = CHR ''1'' then 1 else 0) =
           2 * binaryValue (rev ys) + (if y = CHR ''1'' then 1 else 0)"
    by (simp add: binaryValue_snoc)
  then have "binaryValue (rev xs) = binaryValue (rev ys)"
    by (cases "x = CHR ''1''"; cases "y = CHR ''1''"; simp; presburger)
  moreover from e have "(x = CHR ''1'') = (y = CHR ''1'')"
    by (cases "x = CHR ''1''"; cases "y = CHR ''1''"; simp; presburger)
  ultimately show ?case
    using Cons by (auto simp: isBinaryDigit_def)
qed

lemma binaryValue_inj:
  assumes "length a = length b"
      and "list_all isBinaryDigit a" "list_all isBinaryDigit b"
      and "binaryValue a = binaryValue b"
  shows "a = b"
  using binaryValue_inj_rev[of "rev a" "rev b"] assms by (simp add: list_all_iff)

lemma digitChar_inj: "m < 16 \<Longrightarrow> n < 16 \<Longrightarrow> digitChar m = digitChar n \<Longrightarrow> m = n"
proof -
  assume a: "m < 16" "n < 16" "digitChar m = digitChar n"
  have d: "distinct (take 16 ''0123456789abcdefghijklmnopqrstuvwxyz'')" by simp
  have "take 16 ''0123456789abcdefghijklmnopqrstuvwxyz'' ! m =
        take 16 ''0123456789abcdefghijklmnopqrstuvwxyz'' ! n"
    using a by (simp only: digitChar_def nth_take)
  then show "m = n"
    using nth_eq_iff_index_eq[OF d, of m n] a(1,2) by simp
qed

lemma hexDigit_inj:
  assumes "length a = 4" "length b = 4" "list_all isBinaryDigit a" "list_all isBinaryDigit b"
      and "hexDigit a = hexDigit b"
  shows "a = b"
proof -
  have "0 \<le> binaryValue a" "binaryValue a < 16" "0 \<le> binaryValue b" "binaryValue b < 16"
    using binaryValue_bounds[of a] binaryValue_bounds[of b] assms(1,2) by simp_all
  then have "nat (binaryValue a) = nat (binaryValue b)"
    using assms(5) digitChar_inj[of "nat (binaryValue a)" "nat (binaryValue b)"]
    by (simp add: hexDigit_def)
  then have "binaryValue a = binaryValue b"
    using \<open>0 \<le> binaryValue a\<close> \<open>0 \<le> binaryValue b\<close> by simp
  then show ?thesis
    using binaryValue_inj assms(1-4) by simp
qed

lemma split_20:
  assumes "length dev = 20"
  shows "dev = take 4 dev @ take 4 (drop 4 dev) @ take 4 (drop 8 dev) @ take 4 (drop 12 dev)
                @ take 4 (drop 16 dev)"
proof -
  have "take 4 (drop 16 dev) = drop 16 dev" using assms by simp
  moreover have "take 4 (drop k dev) @ drop (k + 4) dev = drop k dev" for k
    by (metis add.commute append_take_drop_id drop_drop)
  from this[of 12] this[of 8] this[of 4] this[of 0]
  have "take 4 dev @ take 4 (drop 4 dev) @ take 4 (drop 8 dev) @ take 4 (drop 12 dev) @ drop 16 dev = dev"
    by simp
  ultimately show ?thesis by simp
qed

lemma binToHex_inj:
  assumes "length a = 20" "length b = 20" "list_all isBinaryDigit a" "list_all isBinaryDigit b"
      and "binToHex a = binToHex b"
  shows "a = b"
proof -
  have n: "list_all isBinaryDigit (take 4 (drop k x))" if "list_all isBinaryDigit x" for k x
    using that by (metis append_take_drop_id list_all_append)
  have la: "length (take 4 (drop k a)) = 4" "length (take 4 (drop k b)) = 4" if "k \<le> 16" for k
    using that assms(1,2) by simp_all
  have h: "hexDigit (take 4 (drop k a)) = hexDigit (take 4 (drop k b))" if "k \<in> {0, 4, 8, 12, 16}" for k
    using that assms(5)
    by (auto simp: binToHex_20[OF assms(1)] binToHex_20[OF assms(2)] assms(3,4)[unfolded list_all_iff])
  have "take 4 (drop k a) = take 4 (drop k b)" if "k \<in> {0, 4, 8, 12, 16}" for k
    using hexDigit_inj[OF la(1) la(2) n[OF assms(3)] n[OF assms(4)] h[OF that]] that by auto
  from this[of 0] this[of 4] this[of 8] this[of 12] this[of 16]
  show ?thesis
    using split_20[OF assms(1)] split_20[OF assms(2)] by simp
qed

text \<open>
  Claim C4. A frame built by concatenating a 24-bit preamble, 16 sync bits, 20 device-id
  bits, 3 command bits and 1 battery bit parses to those fields: the sync field is the sync
  bits; the device id is \<open>0x\<close> followed by the hexadecimal digits of the id bits, five
  digits that determine the 20 bits; command and battery are the table entries of their
  codes. In particular the id bits \<open>00000000000000000001\<close> give \<open>0x00001\<close>, the command
  \<open>001\<close> gives \<open>OPEN\<close>, the battery bit \<open>1\<close> gives \<open>OK\<close>, and the unknown command
  \<open>111\<close> gives \<open>UNKNOWN\<close>. The parser has no failing branch: none of the string
  operations it uses can throw.
\<close>

theorem parse_roundtrip:
  assumes "length pre = 24" "length syn = 16" "length dev = 20" "length cmd = 3" "length bat = 1"
  shows "sync (parse (pre @ syn @ dev @ cmd @ bat)) = syn \<and>
         deviceId (parse (pre @ syn @ dev @ cmd @ bat)) = ''0x'' @ binToHex dev \<and>
         command (parse (pre @ syn @ dev @ cmd @ bat)) =
           (if cmd = ''001'' then ''OPEN'' else if cmd = ''010'' then ''CLOSE'' else ''UNKNOWN'') \<and>
         battery (parse (pre @ syn @ dev @ cmd @ bat)) =
           (if bat = ''1'' then ''OK'' else if bat = ''0'' then ''LOW'' else ''UNKNOWN'') \<and>
         (list_all isBinaryDigit dev \<longrightarrow>
            binToHex dev =
              [hexDigit (take 4 dev), hexDigit (take 4 (drop 4 dev)), hexDigit (take 4 (drop 8 dev)),
               hexDigit (take 4 (drop 12 dev)), hexDigit (take 4 (drop 16 dev))] \<and>
            (\<forall>dev'. length dev' = 20 \<and> list_all isBinaryDigit dev' \<and>
                deviceId (parse (pre @ syn @ dev' @ cmd @ bat)) =
                deviceId (parse (pre @ syn @ dev @ cmd @ bat)) \<longrightarrow> dev' = dev)) \<and>
         (dev = ''00000000000000000001'' \<longrightarrow>
            deviceId (parse (pre @ syn @ dev @ cmd @ bat)) = ''0x00001'') \<and>
         (cmd = ''001'' \<longrightarrow> command (parse (pre @ syn @ dev @ cmd @ bat)) = ''OPEN'') \<and>
         (bat = ''1'' \<longrightarrow> battery (parse (pre @ syn @ dev @ cmd @ bat)) = ''OK'') \<and>
         (cmd = ''111'' \<longrightarrow> command (parse (pre @ syn @ dev @ cmd @ bat)) = ''UNKNOWN'')"
proof -
  have p: "parse (pre @ syn @ d @ cmd @ bat) =
     \<lparr>sync = syn, deviceId = ''0x'' @ binToHex d,
      command = (if cmd = ''001'' then ''OPEN'' else if cmd = ''010'' then ''CLOSE'' else ''UNKNOWN''),
      battery = (if bat = ''1'' then ''OK'' else if bat = ''0'' then ''LOW'' else ''UNKNOWN'')\<rparr>"
    if "length d = 20" for d
    using assms that by (simp add: parse_fields)
  have one: "binToHex ''00000000000000000001'' = ''00001''"
    using binToHex_20[of "''00000000000000000001''"]
    by (simp add: isBinaryDigit_def hexDigit_def binaryValue_def digitChar_def)
  have hex: "binToHex dev =
              [hexDigit (take 4 dev), hexDigit (take 4 (drop 4 dev)), hexDigit (take 4 (drop 8 dev)),
               hexDigit (take 4 (drop 12 dev)), hexDigit (take 4 (drop 16 dev))]"
    if "list_all isBinaryDigit dev"
    using binToHex_20[OF assms(3)] that by (simp add: list_all_iff)
  have inj: "dev' = dev"
    if "list_all isBinaryDigit dev" "length dev' = 20" "list_all isBinaryDigit dev'"
       "deviceId (parse (pre @ syn @ dev' @ cmd @ bat)) = deviceId (parse (pre @ syn @ dev @ cmd @ bat))"
    for dev'
    using that binToHex_inj[of dev' dev] assms(3) by (simp add: p)
  have ex: "deviceId (parse (pre @ syn @ dev @ cmd @ bat)) = ''0x00001''"
    if "dev = ''00000000000000000001''"
    using p[OF assms(3)] one that by simp
  show ?thesis
  proof (intro conjI impI allI)
    show "binToHex dev =
              [hexDigit (take 4 dev), hexDigit (take 4 (drop 4 dev)), hexDigit (take 4 (drop 8 dev)),
               hexDigit (take 4 (drop 12 dev)), hexDigit (take 4 (drop 16 dev))]"
      if "list_all isBinaryDigit dev" using that by (rule hex)
    show "dev' = dev"
      if "list_all isBinaryDigit dev"
         "length dev' = 20 \<and> list_all isBinaryDigit dev' \<and>
                deviceId (parse (pre @ syn @ dev' @ cmd @ bat)) =
                deviceId (parse (pre @ syn @ dev @ cmd @ bat))" for dev'
      using that inj by blast
    show "deviceId (parse (pre @ syn @ dev @ cmd @ bat)) = ''0x00001''"
      if "dev = ''00000000000000000001''" using that by (rule ex)
    show "command (parse (pre @ syn @ dev @ cmd @ bat)) = ''OPEN''" if "cmd = ''001''"
      unfolding p[OF assms(3)] using that by simp
    show "command (parse (pre @ syn @ dev @ cmd @ bat)) = ''UNKNOWN''" if "cmd = ''111''"
      unfolding p[OF assms(3)] using that by simp
    show "battery (parse (pre @ syn @ dev @ cmd @ bat)) = ''OK''" if "bat = ''1''"
      unfolding p[OF assms(3)] using that by simp
  qed (simp_all add: p[OF assms(3)])
qed

theorem parse_roundtrip_witness:
  "length (replicate 24 CHR ''1'') = 24 \<and> length SYNC_WORD = 16 \<and>
   length ''00000000000000000001'' = 20 \<and> length ''001'' = 3 \<and> length ''1'' = 1 \<and>
   parse (replicate 24 CHR ''1'' @ SYNC_WORD @ ''00000000000000000001'' @ ''001'' @ ''1'') =
     \<lparr>sync = SYNC_WORD, deviceId = ''0x00001'', command = ''OPEN'', battery = ''OK''\<rparr> \<and>
   command (parse (replicate 24 CHR ''1'' @ SYNC_WORD @ ''00000000000000000001'' @ ''111'' @ ''1''))
     = ''UNKNOWN''"
proof -
  have l: "length (replicate 24 CHR ''1'') = 24" "length SYNC_WORD = 16"
    "length ''00000000000000000001'' = 20" "length ''001'' = 3" "length ''111'' = 3" "length ''1'' = 1"
    by (simp_all add: SYNC_WORD_def)
  have one: "binToHex ''00000000000000000001'' = ''00001''"
    using binToHex_20[of "''00000000000000000001''"]
    by (simp add: isBinaryDigit_def hexDigit_def binaryValue_def digitChar_def)
  show ?thesis
    using parse_roundtrip [OF l(1) l(2) l(3) l(4) l(6)] parse_roundtrip [OF l(1) l(2) l(3) l(5) l(6)] l
    by (simp add: parse_fields one SYNC_WORD_def)
qed

text \<open>
  Claim C9. For every string of the protocol length 64 the parser returns a frame: the sync
  field is the 16 characters after the preamble, whatever they are, and a command or battery
  code outside its table gives \<open>UNKNOWN\<close> (on a string of bits the battery code is always
  in its table). The parser does not look at the sync constant. The caller does: it leaves
  the world unchanged for a frame whose sync field differs from the constant and publishes
  for one whose sync field matches, so processing a list of frames is processing those with
  a matching sync field.
\<close>

theorem parser_keeps_mismatched_frames:
  assumes "length f = 64"
  shows "parse f =
           \<lparr>sync = take 16 (drop 24 f),
            deviceId = ''0x'' @ binToHex (take 20 (drop 40 f)),
            command = (if take 3 (drop 60 f) = ''001'' then ''OPEN''
                       else if take 3 (drop 60 f) = ''010'' then ''CLOSE'' else ''UNKNOWN''),
            battery = (if drop 63 f = ''1'' then ''OK''
                       else if drop 63 f = ''0'' then ''LOW'' else ''UNKNOWN'')\<rparr> \<and>
         (list_all isBinaryDigit f \<longrightarrow>
            length (deviceId (parse f)) = 7 \<and> battery (parse f) \<noteq> ''UNKNOWN'') \<and>
         (sync (parse f) \<noteq> SYNC_WORD \<longrightarrow> processFile_frame w f = w) \<and>
         (sync (parse f) = SYNC_WORD \<longrightarrow> length (sent (processFile_frame w f)) > length (sent w)) \<and>
         foldl processFile_frame w fs =
           foldl processFile_frame w (filter (\<lambda>g. sync (parse g) = SYNC_WORD) fs)"
proof -
  have t: "take 1 (drop 63 f) = drop 63 f" using assms by simp
  have p: "parse f =
           \<lparr>sync = take 16 (drop 24 f),
            deviceId = ''0x'' @ binToHex (take 20 (drop 40 f)),
            command = (if take 3 (drop 60 f) = ''001'' then ''OPEN''
                       else if take 3 (drop 60 f) = ''010'' then ''CLOSE'' else ''UNKNOWN''),
            battery = (if drop 63 f = ''1'' then ''OK''
                       else if drop 63 f = ''0'' then ''LOW'' else ''UNKNOWN'')\<rparr>"
    using parse_fields[of f] t by (simp del: One_nat_def)
  have b: "length (deviceId (parse f)) = 7 \<and> battery (parse f) \<noteq> ''UNKNOWN''"
    if bits: "list_all isBinaryDigit f"
  proof -
    have "length (take 20 (drop 40 f)) = 20" using assms by simp
    moreover have "\<forall>c \<in> set (take 20 (drop 40 f)). isBinaryDigit c"
      using bits by (metis in_set_dropD in_set_takeD list_all_iff)
    ultimately have "length (binToHex (take 20 (drop 40 f))) = 5"
      using binToHex_20[of "take 20 (drop 40 f)"] by simp
    moreover have "length (drop 63 f) = Suc 0" using assms by simp
    then obtain c where c: "drop 63 f = [c]"
      by (metis length_Suc_conv length_0_conv)
    moreover have "isBinaryDigit c"
      using bits c by (metis in_set_dropD list.set_intros(1) list_all_iff)
    ultimately show ?thesis
      by (auto simp: p isBinaryDigit_def)
  qed
  have d: "sync (parse f) \<noteq> SYNC_WORD \<longrightarrow> processFile_frame w f = w"
    by (simp add: processFile_frame_def Let_def)
  have k: "sync (parse f) = SYNC_WORD \<longrightarrow> length (sent (processFile_frame w f)) > length (sent w)"
    by (simp add: processFile_frame_def Let_def publishDiscovery_def)
  show ?thesis
    using p b d k processFile_frame_filter[of w fs] by blast
qed

theorem parser_keeps_mismatched_frames_witness:
  "length (replicate 24 CHR ''1'' @ replicate 16 CHR ''0'' @ ''00000000000000000001'' @ ''111'' @ ''0'') = 64 \<and>
   parse (replicate 24 CHR ''1'' @ replicate 16 CHR ''0'' @ ''00000000000000000001'' @ ''111'' @ ''0'') =
     \<lparr>sync = ''0000000000000000'', deviceId = ''0x00001'', command = ''UNKNOWN'', battery = ''LOW''\<rparr> \<and>
   processFile_frame \<lparr>discovered = {}, sent = [], console = []\<rparr>
     (replicate 24 CHR ''1'' @ replicate 16 CHR ''0'' @ ''00000000000000000001'' @ ''111'' @ ''0'')
     = \<lparr>discovered = {}, sent = [], console = []\<rparr>"
proof -
  define f where "f = replicate 24 CHR ''1'' @ replicate 16 CHR ''0'' @ ''00000000000000000001'' @ ''111'' @ ''0''"
  have l: "length f = 64" by (simp add: f_def)
  have one: "binToHex ''00000000000000000001'' = ''00001''"
    using binToHex_20[of "''00000000000000000001''"]
    by (simp add: isBinaryDigit_def hexDigit_def binaryValue_def digitChar_def)
  have r16: "replicate 16 CHR ''0'' = ''0000000000000000''"
    by (simp add: numeral_eq_Suc)
  have s: "sync (parse f) \<noteq> SYNC_WORD"
    by (simp add: parse_fields f_def SYNC_WORD_def r16)
  show ?thesis
    using parser_keeps_mismatched_frames [OF l, of "\<lparr>discovered = {}, sent = [], console = []\<rparr>" "[]"] s l
    unfolding f_def by (simp add: one r16)
qed

section \<open>Properties of the Phase Demodulator\<close>

declare computeDiffs_loop.simps [simp del] computePhaseDiff_loop.simps [simp del]

lemma computeDiffs_loop_length [simp]:
  "length (computeDiffs_loop phases len i dfs) = length dfs"
proof (induction phases len i dfs rule: computeDiffs_loop.induct)
  case (1 phases len i dfs)
  show ?case
  proof (cases "i < len")
    case True
    with 1 show ?thesis by (subst computeDiffs_loop.simps) (simp add: Let_def)
  next
    case False
    then show ?thesis by (subst computeDiffs_loop.simps) simp
  qed
qed

lemma computeDiffs_loop_nth:
  "j < length dfs \<Longrightarrow>
     computeDiffs_loop phases len i dfs ! j =
       (if i \<le> int j \<and> int j < len
        then fround (wrap_step (num_sub (phases ! j) (phases ! nat (int j - 1)))) else dfs ! j)"
proof (induction phases len i dfs rule: computeDiffs_loop.induct)
  case (1 phases len i dfs)
  show ?case
  proof (cases "i < len")
    case True
    define d where "d = fround (wrap_step (num_sub (phases ! nat i) (phases ! nat (i - 1))))"
    have step: "computeDiffs_loop phases len i dfs =
                computeDiffs_loop phases len (i + 1) (ta_set dfs i d)"
      using True by (subst computeDiffs_loop.simps) (simp add: Let_def d_def wrap_step_def)
    have ih: "computeDiffs_loop phases len (i + 1) (ta_set dfs i d) ! j =
       (if i + 1 \<le> int j \<and> int j < len
        then fround (wrap_step (num_sub (phases ! j) (phases ! nat (int j - 1))))
        else ta_set dfs i d ! j)"
      using "1.IH"[OF True refl refl refl, of ] "1.prems"
      by (simp add: d_def wrap_step_def Let_def)
    show ?thesis
      unfolding step ih using "1.prems" True by (auto simp: ta_set_nth d_def)
  next
    case False
    then show ?thesis by (subst computeDiffs_loop.simps) auto
  qed
qed

lemma newArray_of_nat [simp]: "newArray (of_nat n) = replicate n 0"
  by (simp add: newArray_def)

lemma computeDiffs_length [simp]: "length (computeDiffs phases) = length phases"
  by (simp add: computeDiffs_def)

lemma computeDiffs_nth:
  "i < length phases \<Longrightarrow>
     computeDiffs phases ! i =
       (if i = 0 then Val 0 else fround (wrap_step (num_sub (phases ! i) (phases ! (i - 1)))))"
  by (auto simp: computeDiffs_def computeDiffs_loop_nth nat_diff_distrib' zero_number_def)

lemma computePhaseDiff_loop_eq:
  "computePhaseDiff_loop phases n i dp = computeDiffs_loop phases n i dp"
proof (induction phases n i dp rule: computeDiffs_loop.induct)
  case (1 phases len i dfs)
  show ?case
  proof (cases "i < len")
    case True
    with 1 show ?thesis
      by (subst computePhaseDiff_loop.simps, subst computeDiffs_loop.simps) (simp add: Let_def)
  next
    case False
    then show ?thesis
      by (subst computePhaseDiff_loop.simps, subst computeDiffs_loop.simps) simp
  qed
qed

lemma round_unbounded_0 [simp]: "round_unbounded p emin 0 = 0"
  by (simp add: round_unbounded_def)

lemma round_to_0 [simp]: "round_to p emin emax 0 = Val 0"
  using zero_less_power_int[of "2::rat" "emax + 1"] by (simp add: round_to_def not_le)

lemma computePhaseDiff_eq: "computePhaseDiff phases = computeDiffs phases"
proof -
  have "ta_set (replicate n (0::number)) 0 (fround (Val 0)) = replicate n 0" for n
    by (cases n) (simp_all add: ta_set_def round32_def zero_number_def)
  then show ?thesis
    by (simp add: computePhaseDiff_def computeDiffs_def computePhaseDiff_loop_eq)
qed

lemma num_sub_Val [simp]: "num_sub (Val a) (Val b) = round64 (a - b)"
  by (simp add: num_sub_def)

lemma big_powers: "(8::rat) < 2 powi (1023 + 1)" "(8::rat) < 2 powi (127 + 1)"
  by simp_all

lemma round64_between:
  assumes "lo \<le> x" "x \<le> hi"
      and "round_unbounded 53 (- 1022) lo = lo" "round_unbounded 53 (- 1022) hi = hi"
      and "- 8 \<le> lo" "hi \<le> 8"
  shows "\<exists>r. round64 x = Val r \<and> lo \<le> r \<and> r \<le> hi"
  unfolding round64_def
  using assms big_powers(1) by (intro round_to_bounded) simp_all

lemma round32_between:
  assumes "lo \<le> x" "x \<le> hi"
      and "round_unbounded 24 (- 126) lo = lo" "round_unbounded 24 (- 126) hi = hi"
      and "- 8 \<le> lo" "hi \<le> 8"
  shows "\<exists>r. round32 x = Val r \<and> lo \<le> r \<and> r \<le> hi"
  unfolding round32_def
  using assms big_powers(2) by (intro round_to_bounded) simp_all

lemma PI64_bounds: "3 < PI64" "PI64 < 4" "PI64 < PI32" "PI32 < 4"
  by (simp_all add: PI64_def PI32_def)

lemma fixed64:
  "round_unbounded 53 (- 1022) (- PI64) = - PI64"
  "round_unbounded 53 (- 1022) (- (2 * PI64)) = - (2 * PI64)"
  by (simp_all only: round_unbounded_minus round64_PI64 round64_2PI64)

lemma fixed32:
  "round_unbounded 24 (- 126) (- PI32) = - PI32"
  by (simp only: round_unbounded_minus round32_PI32)

lemma TWO_PI: "num_mul (Val 2) Math_PI = Val (2 * PI64)"
proof -
  obtain r where "round64 (2 * PI64) = Val r" "2 * PI64 \<le> r" "r \<le> 2 * PI64"
    using round64_between[of "2 * PI64" "2 * PI64" "2 * PI64"] round64_2PI64 PI64_bounds by auto
  then show ?thesis by (simp add: Math_PI_def)
qed

lemma round64_TWO [simp]: "round64 (2 * PI64) = Val (2 * PI64)"
  using TWO_PI by (simp add: Math_PI_def)

lemma round64_Val:
  assumes "round_unbounded 53 (- 1022) x = y" and "\<bar>y\<bar> \<le> 16"
  shows "round64 x = Val y"
proof -
  have "(16::rat) < 2 powi (1023 + 1)" by simp
  then show ?thesis using assms by (simp add: round64_def round_to_def)
qed

lemma round32_Val:
  assumes "round_unbounded 24 (- 126) x = y" and "\<bar>y\<bar> \<le> 8"
  shows "round32 x = Val y"
  using assms big_powers(2) by (simp add: round32_def round_to_def)

lemma round64_PI [simp]: "round64 PI64 = Val PI64" "round64 (- PI64) = Val (- PI64)"
  using PI64_bounds by (simp_all add: round64_Val round64_PI64 fixed64)

lemma round32_PI [simp]: "round32 PI64 = Val PI32" "round32 (- PI64) = Val (- PI32)"
  using PI64_bounds by (simp_all add: round32_Val round32_PI64 round_unbounded_minus)

lemma round64_ten [simp]: "round64 10 = Val 10"
proof -
  have "round_unbounded 53 (- 1022) 10 = 10"
    by (subst round_unbounded_eval[where e = 3]) (simp_all add: rne_def Let_def)
  then show ?thesis by (rule round64_Val) simp
qed

lemma round64_ten_minus [simp]:
  "round64 (10 - 2 * PI64) = Val (523095164549725 / 140737488355328)"
proof -
  have "round_unbounded 53 (- 1022) (10 - 2 * PI64) = 523095164549725 / 140737488355328"
    by (subst round_unbounded_eval[where e = 1]) (simp_all add: PI64_def rne_def Let_def)
  then show ?thesis by (rule round64_Val) simp
qed

lemma round32_ten_minus [simp]:
  "round32 (523095164549725 / 140737488355328) = Val (15589451 / 4194304)"
proof -
  have "round_unbounded 24 (- 126) (523095164549725 / 140737488355328) = 15589451 / 4194304"
    by (subst round_unbounded_eval[where e = 1]) (simp_all add: rne_def Let_def)
  then show ?thesis by (rule round32_Val) simp
qed

lemma round64_not_below:
  assumes "lo \<le> x" and "round_unbounded 53 (- 1022) lo = lo" and "- 8 \<le> lo"
  shows "\<not> num_less (round64 x) (Val lo)"
proof -
  define r where "r = round_unbounded 53 (- 1022) x"
  have "round_unbounded 53 (- 1022) lo \<le> r"
    unfolding r_def using assms(1) by (intro round_unbounded_mono) simp_all
  then have r: "lo \<le> r" using assms(2) by simp
  show ?thesis
  proof (cases "2 powi (1023 + 1) \<le> \<bar>r\<bar>")
    case True
    then have "0 < r" using r assms(3) big_powers(1) by linarith
    then show ?thesis using True by (simp add: round64_def round_to_def r_def[symmetric])
  next
    case False
    then show ?thesis using r by (simp add: round64_def round_to_def r_def[symmetric])
  qed
qed

lemma wrap_step_once:
  "wrap_step d =
     (if num_less Math_PI d then num_sub d (num_mul (Val 2) Math_PI)
      else if num_less d (num_neg Math_PI) then num_add d (num_mul (Val 2) Math_PI)
      else d)"
proof (cases d)
  case (Val a)
  show ?thesis
  proof (cases "PI64 < a")
    case True
    have "\<not> num_less (round64 (a - 2 * PI64)) (Val (- PI64))"
      using True fixed64(1) PI64_bounds by (intro round64_not_below) simp_all
    then show ?thesis
      using True by (simp add: wrap_step_def Val Math_PI_def)
  next
    case False
    then show ?thesis by (simp add: wrap_step_def Val Math_PI_def)
  qed
qed (simp_all add: wrap_step_def Math_PI_def num_sub_def)

lemma wrap_step_range:
  assumes "- PI64 \<le> a" "a \<le> PI64" "- PI64 \<le> b" "b \<le> PI64"
  shows "in_range (- PI64) PI64 (wrap_step (num_sub (Val a) (Val b)))"
proof -
  obtain d where d: "round64 (a - b) = Val d" "- (2 * PI64) \<le> d" "d \<le> 2 * PI64"
    using round64_between[of "- (2 * PI64)" "a - b" "2 * PI64"] assms fixed64(2) round64_2PI64
      PI64_bounds by auto
  show ?thesis
  proof (cases "PI64 < d")
    case True
    obtain v where "round64 (d - 2 * PI64) = Val v" "- PI64 \<le> v" "v \<le> 0"
      using round64_between[of "- PI64" "d - 2 * PI64" 0] True d(3) fixed64(1) PI64_bounds by auto
    then show ?thesis
      using True PI64_bounds
      by (simp add: wrap_step_once d(1) Math_PI_def in_range_def)
  next
    case False
    show ?thesis
    proof (cases "d < - PI64")
      case True
      obtain v where "round64 (d + 2 * PI64) = Val v" "0 \<le> v" "v \<le> PI64"
        using round64_between[of 0 "d + 2 * PI64" PI64] True d(2) round64_PI64 PI64_bounds by auto
      then show ?thesis
        using True False PI64_bounds
        by (simp add: wrap_step_once d(1) Math_PI_def in_range_def)
    next
      case nlt: False
      then show ?thesis
        using False by (simp add: wrap_step_once d(1) Math_PI_def in_range_def)
    qed
  qed
qed

lemma fround_range:
  assumes "in_range (- PI64) PI64 x"
  shows "in_range (- PI32) PI32 (fround x)"
proof -
  obtain v where v: "x = Val v" "- PI64 \<le> v" "v \<le> PI64"
    using assms by (cases x) (simp_all add: in_range_def)
  have lo: "round_unbounded 24 (- 126) (- PI64) = - PI32"
    by (simp only: round_unbounded_minus round32_PI64)
  define r where "r = round_unbounded 24 (- 126) v"
  have "round_unbounded 24 (- 126) (- PI64) \<le> r" "r \<le> round_unbounded 24 (- 126) PI64"
    unfolding r_def using v by (intro round_unbounded_mono; simp)+
  then have r: "- PI32 \<le> r" "r \<le> PI32" by (simp_all add: lo round32_PI64)
  then have "\<bar>r\<bar> < 2 powi (127 + 1)" using PI64_bounds big_powers(2) by linarith
  then have "round32 v = Val r" by (simp add: round32_def round_to_def r_def[symmetric])
  then show ?thesis using r by (simp add: v(1) in_range_def)
qed

text \<open>
  Claim C2. For every phase sequence the difference output has the length of the input and a
  first element 0. For every \<open>i \<ge> 1\<close>, \<open>diff[i]\<close> is \<open>phase[i] - phase[i-1]\<close>, computed
  in doubles, minus \<open>2 * Math.PI\<close> when that exceeds \<open>Math.PI\<close>, plus \<open>2 * Math.PI\<close>
  when it is below \<open>-Math.PI\<close>, never both, and then rounded to an element of the
  \<open>Float32Array\<close>. When every phase is a finite number between \<open>-Math.PI\<close> and
  \<open>Math.PI\<close>, every difference is a finite number between \<open>-PI32\<close> and \<open>PI32\<close>, the
  bounds included. The second program computes the same array.
\<close>

theorem phase_diff_closed_range:
  "length (computeDiffs phases) = length phases \<and>
   (phases \<noteq> [] \<longrightarrow> computeDiffs phases ! 0 = Val 0) \<and>
   (\<forall>i. 1 \<le> i \<and> i < length phases \<longrightarrow>
      computeDiffs phases ! i =
        fround
          (if num_less Math_PI (num_sub (phases ! i) (phases ! (i - 1)))
           then num_sub (num_sub (phases ! i) (phases ! (i - 1))) (num_mul (Val 2) Math_PI)
           else if num_less (num_sub (phases ! i) (phases ! (i - 1))) (num_neg Math_PI)
           then num_add (num_sub (phases ! i) (phases ! (i - 1))) (num_mul (Val 2) Math_PI)
           else num_sub (phases ! i) (phases ! (i - 1)))) \<and>
   ((\<forall>p \<in> set phases. in_range (- PI64) PI64 p) \<longrightarrow>
      (\<forall>i < length phases. in_range (- PI32) PI32 (computeDiffs phases ! i))) \<and>
   computePhaseDiff phases = computeDiffs phases"
proof (intro conjI allI impI)
  show "length (computeDiffs phases) = length phases" by simp
  show "computePhaseDiff phases = computeDiffs phases" by (rule computePhaseDiff_eq)
  show "computeDiffs phases ! 0 = Val 0" if "phases \<noteq> []"
    using that by (simp add: computeDiffs_nth)
next
  fix i assume "1 \<le> i \<and> i < length phases"
  then show "computeDiffs phases ! i =
        fround
          (if num_less Math_PI (num_sub (phases ! i) (phases ! (i - 1)))
           then num_sub (num_sub (phases ! i) (phases ! (i - 1))) (num_mul (Val 2) Math_PI)
           else if num_less (num_sub (phases ! i) (phases ! (i - 1))) (num_neg Math_PI)
           then num_add (num_sub (phases ! i) (phases ! (i - 1))) (num_mul (Val 2) Math_PI)
           else num_sub (phases ! i) (phases ! (i - 1)))"
    by (simp add: computeDiffs_nth wrap_step_once)
next
  fix i assume r: "\<forall>p \<in> set phases. in_range (- PI64) PI64 p" and i: "i < length phases"
  show "in_range (- PI32) PI32 (computeDiffs phases ! i)"
  proof (cases "i = 0")
    case True
    then show ?thesis using i PI64_bounds by (simp add: computeDiffs_nth in_range_def)
  next
    case False
    have "in_range (- PI64) PI64 (phases ! i)" "in_range (- PI64) PI64 (phases ! (i - 1))"
      using r i by (simp_all add: less_imp_diff_less)
    then obtain a b where ab: "phases ! i = Val a" "- PI64 \<le> a" "a \<le> PI64"
        "phases ! (i - 1) = Val b" "- PI64 \<le> b" "b \<le> PI64"
      by (cases "phases ! i"; cases "phases ! (i - 1)") (simp_all add: in_range_def)
    have "in_range (- PI64) PI64 (wrap_step (num_sub (phases ! i) (phases ! (i - 1))))"
      unfolding ab(1,4) using ab(2,3,5,6) by (rule wrap_step_range)
    then show ?thesis
      using False i by (simp add: computeDiffs_nth fround_range)
  qed
qed

text \<open>
  The phases \<open>Math.PI\<close>, 0, \<open>-Math.PI\<close> are in the range; the second difference is the
  lower bound itself.
\<close>

theorem phase_diff_closed_range_witness:
  "in_range (- PI64) PI64 (Val PI64) \<and> in_range (- PI64) PI64 (Val 0) \<and>
   in_range (- PI64) PI64 (Val (- PI64)) \<and>
   length (computeDiffs [Val PI64, Val 0, Val (- PI64)]) = 3 \<and>
   computeDiffs [Val PI64, Val 0, Val (- PI64)] ! 0 = Val 0 \<and>
   computeDiffs [Val PI64, Val 0, Val (- PI64)] ! 1 = Val (- PI32) \<and>
   in_range (- PI32) PI32 (computeDiffs [Val PI64, Val 0, Val (- PI64)] ! 2) \<and>
   computePhaseDiff [Val PI64, Val 0, Val (- PI64)] = computeDiffs [Val PI64, Val 0, Val (- PI64)]"
  using phase_diff_closed_range [of "[Val PI64, Val 0, Val (- PI64)]"] PI64_bounds
  by (simp add: in_range_def Math_PI_def)

text \<open>
  Both bounds are reached by phases in the range, and both lie outside the interval from
  \<open>-\<pi>\<close> to \<open>\<pi>\<close>, and outside the one from \<open>-Math.PI\<close> to \<open>Math.PI\<close>: the phases
  \<open>Math.PI\<close>, 0 give the difference \<open>-PI32\<close> and the phases 0, \<open>Math.PI\<close> give
  \<open>PI32\<close>. Outside the range of the phases one correction does not suffice: the phases 0, 10
  give 3.7168147563934326.
\<close>

theorem phase_diff_range_counterexample:
  "in_range (- PI64) PI64 (Val PI64) \<and> in_range (- PI64) PI64 (Val 0) \<and>
   computeDiffs [Val PI64, Val 0] ! 1 = Val (- PI32) \<and> - PI32 < - PI64 \<and>
   - real_of_rat PI32 < - pi \<and>
   computeDiffs [Val 0, Val PI64] ! 1 = Val PI32 \<and> PI64 < PI32 \<and>
   pi < real_of_rat PI32 \<and> real_of_rat PI64 < pi \<and>
   computeDiffs [Val 0, Val 10] ! 1 = Val (15589451 / 2 ^ 22) \<and> PI32 < 15589451 / 2 ^ 22"
proof -
  have "in_range (- PI64) PI64 (Val PI64) \<and> in_range (- PI64) PI64 (Val 0) \<and>
   computeDiffs [Val PI64, Val 0] ! 1 = Val (- PI32) \<and> - PI32 < - PI64 \<and>
   computeDiffs [Val 0, Val PI64] ! 1 = Val PI32 \<and> PI64 < PI32 \<and>
   computeDiffs [Val 0, Val 10] ! 1 = Val (15589451 / 2 ^ 22) \<and> PI32 < 15589451 / 2 ^ 22"
    using PI64_bounds
    by (simp add: computeDiffs_nth wrap_step_once in_range_def Math_PI_def PI32_def)
  then show ?thesis
    using pi_less_PI32 PI64_less_pi by simp
qed

section \<open>Properties of the Bit Slicer\<close>

declare integrate.simps [simp del] decodeBits_loop.simps [simp del] decodeFSK_loop.simps [simp del]

lemma symbol_index_bound:
  fixes w s k T :: int
  assumes "1 \<le> w" "0 \<le> s" "s < T div w" "0 \<le> k" "k < w"
  shows "0 \<le> s * w + k" and "s * w + k < T"
proof -
  show "0 \<le> s * w + k" using assms by simp
  have "s + 1 \<le> T div w" using assms(3) by simp
  then have "(s + 1) * w \<le> (T div w) * w"
    using assms(1) by (intro mult_right_mono) simp_all
  moreover have "T div w * w + T mod w = T" by simp
  moreover have "0 \<le> T mod w" using assms(1) by simp
  ultimately have "(s + 1) * w \<le> T" by linarith
  then show "s * w + k < T" using assms(5) by (simp add: algebra_simps)
qed

lemma floorDiv_finite: "w \<noteq> 0 \<Longrightarrow> floorDiv T w = Finite (T div w)"
  by (simp add: floorDiv_def floor_divide_of_int_eq)

lemma integrate_foldl:
  "integrate dphi offset w k acc =
     foldl js_add acc (map (\<lambda>j. ta_get dphi (offset + j)) [k..w - 1])"
proof (induction dphi offset w k acc rule: integrate.induct)
  case (1 dphi offset w k acc)
  show ?case
  proof (cases "k < w")
    case True
    then have u: "[k..w - 1] = k # [k + 1..w - 1]"
      by (simp add: upto_rec1)
    show ?thesis
      using True 1[OF True] by (subst integrate.simps) (simp add: u)
  next
    case False
    then show ?thesis by (subst integrate.simps) simp
  qed
qed

lemma foldl_js_add_in_range:
  "\<forall>j \<in> set js. 0 \<le> offset + j \<and> offset + j < int (length dphi) \<Longrightarrow>
     foldl js_add (Some a) (map (\<lambda>j. ta_get dphi (offset + j)) js) =
       Some (foldl num_add a (map (\<lambda>j. dphi ! nat (offset + j)) js))"
  by (induction js arbitrary: a) (simp_all add: ta_get_def js_add_def)

lemma decodeBits_loop_eq:
  "decodeBits_loop dphi start w symbols s bits =
     bits @ map (\<lambda>t. if symbolBit dphi start w t then ''1'' else ''0'') [s..symbols - 1]"
proof (induction dphi start w symbols s bits rule: decodeBits_loop.induct)
  case (1 dphi start w symbols s bits)
  show ?case
  proof (cases "s < symbols")
    case True
    then have u: "[s..symbols - 1] = s # [s + 1..symbols - 1]"
      by (simp add: upto_rec1)
    show ?thesis
      using True 1[OF True refl refl]
      by (subst decodeBits_loop.simps) (simp add: u symbolBit_def)
  next
    case False
    then show ?thesis by (subst decodeBits_loop.simps) simp
  qed
qed

lemma decodeFSK_loop_eq:
  "decodeFSK_loop dphi start w symbols s bits =
     bits @ map (\<lambda>t. if symbolBit dphi start w t then 1 else 0) [s..symbols - 1]"
proof (induction dphi start w symbols s bits rule: decodeFSK_loop.induct)
  case (1 dphi start w symbols s bits)
  show ?case
  proof (cases "s < symbols")
    case True
    then have u: "[s..symbols - 1] = s # [s + 1..symbols - 1]"
      by (simp add: upto_rec1)
    show ?thesis
      using True 1[OF True refl refl]
      by (subst decodeFSK_loop.simps) (simp add: u symbolBit_def)
  next
    case False
    then show ?thesis by (subst decodeFSK_loop.simps) simp
  qed
qed

lemma symbol_in_range:
  assumes "0 \<le> start" "e < int (length dphi)" "1 \<le> w"
      and "0 \<le> s" "s < (e - start + 1) div w"
  shows "integrate dphi (start + s * w) w 0 (Some a) =
           Some (foldl num_add a (map (\<lambda>k. dphi ! nat (start + s * w + k)) [0..w - 1]))"
proof -
  have "0 \<le> start + s * w + k \<and> start + s * w + k < int (length dphi)"
    if "k \<in> set [0..w - 1]" for k
    using symbol_index_bound[of w s "e - start + 1" k] assms that by simp
  then show ?thesis
    using foldl_js_add_in_range[of "[0..w - 1]" "start + s * w" dphi a]
    by (simp add: integrate_foldl)
qed


lemma joinNumbers_bits:
  "joinNumbers (map (\<lambda>t. if P t then 1 else 0) ts) = join (map (\<lambda>t. if P t then ''1'' else ''0'') ts)"
  by (induction ts)
    (simp_all add: joinNumbers_def join_def numToString_def digitChar_def radixStr.simps)

text \<open>A value with a significand of at most \<open>p\<close> bits is not changed by the rounding.\<close>

lemma round_unbounded_exact:
  assumes "x = of_int m * 2 powi k" and "\<bar>m\<bar> < 2 ^ p" and "emin - int p + 1 \<le> k"
  shows "round_unbounded p emin x = x"
proof (cases "x = 0")
  case True
  then show ?thesis by (simp add: round_unbounded_def)
next
  case False
  define e where "e = max (ilog2 \<bar>x\<bar>) emin"
  have pos: "0 < \<bar>x\<bar>" using False by simp
  have "\<bar>x\<bar> = of_int \<bar>m\<bar> * 2 powi k"
    by (simp add: assms(1) abs_mult)
  also have "\<dots> < 2 ^ p * 2 powi k"
  proof -
    have "(of_int \<bar>m\<bar> :: rat) < of_int (2 ^ p)" using assms(2) by (simp only: of_int_less_iff)
    then show ?thesis by (simp add: zero_less_power_int)
  qed
  also have "\<dots> = 2 powi (int p + k)"
    by (simp add: power_int_add)
  finally have "2 powi ilog2 \<bar>x\<bar> < (2::rat) powi (int p + k)"
    using ilog2_bounds(1)[OF pos] by linarith
  then have "ilog2 \<bar>x\<bar> < int p + k"
    using power_int_increasing[of "int p + k" "ilog2 \<bar>x\<bar>" "2::rat"]
    by (cases "ilog2 \<bar>x\<bar> < int p + k") auto
  then have le: "e - int p + 1 \<le> k" using assms(3) by (simp add: e_def)
  define j where "j = nat (k - (e - int p + 1))"
  have "x / 2 powi (e - int p + 1) = of_int m * 2 powi (k - (e - int p + 1))"
    by (simp add: assms(1) power_int_diff)
  also have "k - (e - int p + 1) = int j" using le by (simp add: j_def)
  also have "of_int m * (2::rat) powi int j = of_int (m * 2 ^ j)" by simp
  finally have q: "x / 2 powi (e - int p + 1) = of_int (m * 2 ^ j)" .
  have "round_unbounded p emin x = of_int (rne (x / 2 powi (e - int p + 1))) * 2 powi (e - int p + 1)"
    using False by (simp add: round_unbounded_def Let_def e_def)
  also have "\<dots> = x / 2 powi (e - int p + 1) * 2 powi (e - int p + 1)"
    by (simp only: q rne_of_int)
  also have "\<dots> = x" by simp
  finally show ?thesis .
qed

lemma round_to_exact:
  assumes "x = of_int m * 2 powi k" and "\<bar>m\<bar> < 2 ^ p" and "emin - int p + 1 \<le> k"
      and "\<bar>x\<bar> < 2 powi (emax + 1)"
  shows "round_to p emin emax x = Val x"
  using assms(4) round_unbounded_exact[OF assms(1-3)] by (simp add: round_to_def)

lemma round64_of_int:
  assumes "\<bar>n\<bar> < 2 ^ 53"
  shows "round64 (of_int n) = Val (of_int n)"
  unfolding round64_def
proof (rule round_to_exact[where k = 0 and m = n])
  have "(of_int \<bar>n\<bar> :: rat) < of_int (2 ^ 53)" using assms by (simp only: of_int_less_iff)
  then show "\<bar>of_int n :: rat\<bar> < 2 powi (1023 + 1)" by simp
qed (use assms in simp_all)

lemma round32_of_int:
  assumes "\<bar>n\<bar> < 2 ^ 24"
  shows "round32 (of_int n) = Val (of_int n)"
  unfolding round32_def
proof (rule round_to_exact[where k = 0 and m = n])
  have "(of_int \<bar>n\<bar> :: rat) < of_int (2 ^ 24)" using assms by (simp only: of_int_less_iff)
  then show "\<bar>of_int n :: rat\<bar> < 2 powi (127 + 1)" by simp
qed (use assms in simp_all)

lemma round64_small [simp]:
  "round64 0 = Val 0" "round64 1 = Val 1" "round64 (- 1) = Val (- 1)"
  "round64 2 = Val 2" "round64 5 = Val 5"
  using round64_of_int[of 0] round64_of_int[of 1] round64_of_int[of "- 1"]
    round64_of_int[of 2] round64_of_int[of 5] by simp_all

lemma round32_small [simp]:
  "round32 0 = Val 0" "round32 1 = Val 1" "round32 (- 1) = Val (- 1)"
  using round32_of_int[of 0] round32_of_int[of 1] round32_of_int[of "- 1"] by simp_all



lemma round_tiny [simp]:
  "round64 (1 / 1152921504606846976) = Val (1 / 1152921504606846976)"
  "round32 (1 / 1152921504606846976) = Val (1 / 1152921504606846976)"
  unfolding round64_def round32_def
  by (rule round_to_exact[where k = "- 60" and m = 1]; simp add: power_int_minus)+

lemma round64_one_plus_tiny [simp]:
  "round64 (1152921504606846977 / 1152921504606846976) = Val 1"
proof -
  have "round_unbounded 53 (- 1022) (1152921504606846977 / 1152921504606846976) = 1"
    by (subst round_unbounded_eval[where e = 0]) (simp_all add: rne_def Let_def)
  then show ?thesis by (rule round64_Val) simp
qed

lemma round64_one_minus_tiny [simp]:
  "round64 (1152921504606846975 / 1152921504606846976) = Val 1"
proof -
  have "round_unbounded 53 (- 1022) (1152921504606846975 / 1152921504606846976) = 1"
    by (subst round_unbounded_eval[where e = "- 1"]) (simp_all add: rne_def Let_def)
  then show ?thesis by (rule round64_Val) simp
qed


text \<open>
  Claim C10. For an interval with \<open>0 \<le> start \<le> e < n\<close> and a width \<open>w \<ge> 1\<close>, every
  index \<open>start + s * w + k\<close> the slicer reads, with \<open>s\<close> below the symbol count and
  \<open>k < w\<close>, lies between \<open>start\<close> and \<open>e\<close>: the read returns an element of the array,
  never \<open>undefined\<close>, for the whole symbol. The symbol count is finite.
\<close>

theorem bit_slicer_reads_in_range:
  assumes "0 \<le> start" "start \<le> e" "e < int (length dphi)" "1 \<le> w"
      and "0 \<le> s" "s < (e - start + 1) div w" "0 \<le> k" "k < w"
  shows "floorDiv (e - start + 1) w = Finite ((e - start + 1) div w) \<and>
         start \<le> start + s * w + k \<and> start + s * w + k \<le> e \<and>
         ta_get dphi (start + s * w + k) = Some (dphi ! nat (start + s * w + k)) \<and>
         integrate dphi (start + s * w) w 0 (Some (Val 0)) \<noteq> None"
proof -
  have b: "0 \<le> s * w + k" "s * w + k < e - start + 1"
    using symbol_index_bound[of w s "e - start + 1" k] assms by simp_all
  then have r: "start \<le> start + s * w + k" "start + s * w + k \<le> e" by simp_all
  then have "ta_get dphi (start + s * w + k) = Some (dphi ! nat (start + s * w + k))"
    using assms(1,3) by (simp add: ta_get_def)
  moreover have "integrate dphi (start + s * w) w 0 (Some (Val 0)) \<noteq> None"
    using symbol_in_range[OF assms(1,3,4,5,6), of "Val 0"] by simp
  moreover have "floorDiv (e - start + 1) w = Finite ((e - start + 1) div w)"
    using assms(4) by (simp add: floorDiv_finite)
  ultimately show ?thesis using r by simp
qed

theorem bit_slicer_reads_in_range_witness:
  "(0::int) \<le> 1 \<and> (1::int) \<le> 5 \<and>
   5 < int (length [Val 0, Val 1, Val (- 1), Val 2, Val 3, Val 9]) \<and> (1::int) \<le> 2 \<and>
   (0::int) \<le> 1 \<and> (1::int) < (5 - 1 + 1) div 2 \<and> (0::int) \<le> 1 \<and> (1::int) < 2 \<and>
   floorDiv (5 - 1 + 1) 2 = Finite 2 \<and>
   ta_get [Val 0, Val 1, Val (- 1), Val 2, Val 3, Val 9] (1 + 1 * 2 + 1) = Some (Val 3) \<and>
   integrate [Val 0, Val 1, Val (- 1), Val 2, Val 3, Val 9] (1 + 1 * 2) 2 0 (Some (Val 0)) =
     Some (Val 5)"
  using bit_slicer_reads_in_range [of 1 5 "[Val 0, Val 1, Val (- 1), Val 2, Val 3, Val 9]" 2 1 1]
  by (simp add: floorDiv_def integrate.simps ta_get_def js_add_def)

section \<open>Properties of the extraction pipelines\<close>

lemma detectSignal_truthy: "map truthy (detectSignal pw threshold) = aboveThreshold pw threshold"
  by (simp add: detectSignal_def aboveThreshold_def truthy_def)

lemma findSignalIntervals_detectSignal:
  "findSignalIntervals (detectSignal pw threshold) minLen =
     findIntervals (aboveThreshold pw threshold) minLen"
  by (simp add: findSignalIntervals_eq detectSignal_truthy)

lemma normalizeIQ_eq: "normalizeIQ (I raw) (Q raw) = normalize_iq raw"
  by (simp add: normalizeIQ_def normalize_iq_def)

lemma computePower_eq: "computePower (I s) (Q s) = calculatePower s"
  by (simp add: computePower_def calculatePower_def)

lemma forEach_eq:
  "extractUnique64BitSequences_forEach dphi w ivs seqs =
     extractSequences_forEach dphi w 64 ivs seqs"
proof (induction ivs arbitrary: seqs)
  case Nil
  show ?case by simp
next
  case (Cons iv ivs)
  obtain s e where iv: "iv = (s, e)" by (cases iv)
  show ?case
  proof (cases "floorDiv (e - s + 1) w")
    case (Finite n)
    have b: "decodeBits dphi (s, e) w =
               Inr (map (\<lambda>t. if symbolBit dphi s w t then ''1'' else ''0'') [0..n - 1])"
      by (simp add: decodeBits_def Finite decodeBits_loop_eq)
    have f: "decodeFSK dphi s e w =
               Inr (map (\<lambda>t. if symbolBit dphi s w t then 1 else 0) [0..n - 1])"
      by (simp add: decodeFSK_def Finite decodeFSK_loop_eq)
    show ?thesis
      by (simp add: iv b f joinNumbers_bits Cons.IH)
  next
    case PlusInfinity
    then show ?thesis by (simp add: iv decodeBits_def decodeFSK_def)
  next
    case MinusInfinity
    then show ?thesis by (simp add: iv decodeBits_def decodeFSK_def Cons.IH)
  next
    case NaN
    then show ?thesis by (simp add: iv decodeBits_def decodeFSK_def Cons.IH)
  qed
qed

text \<open>
  Claim C3. For every \<open>atan2\<close>, disk, file and configuration (threshold, minimum length,
  samples per bit) the pipeline that keeps bit strings of the literal length 64 returns what
  the pipeline that compares with the sum of the field-length constants returns: the same
  error, or the same list of unique bit strings in the same order.
\<close>

theorem extraction_pipelines_agree:
  "extractUnique64BitSequences atan2 disk file threshold minLen samplesPerBit =
     extractSequences atan2 disk file threshold minLen samplesPerBit"
proof (cases "readIq disk file")
  case (Inl err)
  then show ?thesis
    by (simp add: extractUnique64BitSequences_def extractSequences_def readCU8File_eq)
next
  case (Inr raw)
  define norm where "norm = normalize_iq raw"
  define ivs where "ivs = findIntervals (aboveThreshold (calculatePower norm) threshold) minLen"
  define dphi where "dphi = computeDiffs (computePhases atan2 norm)"
  have len: "PREAMBLE_LENGTH + SYNC_WORD_LENGTH + DEVICE_ID_LENGTH + COMMAND_LENGTH + BATTERY_LENGTH = 64"
    by (simp add: field_lengths)
  have named: "extractSequences atan2 disk file threshold minLen samplesPerBit =
      (if ivs = [] then Inr [] else extractSequences_forEach dphi samplesPerBit 64 ivs [])"
    by (simp add: extractSequences_def Inr Let_def len norm_def ivs_def dphi_def)
  have literal: "extractUnique64BitSequences atan2 disk file threshold minLen samplesPerBit =
      (if ivs = [] then Inr [] else extractUnique64BitSequences_forEach dphi samplesPerBit ivs [])"
    by (simp add: extractUnique64BitSequences_def readCU8File_eq Inr Let_def normalizeIQ_eq
          computePower_eq findSignalIntervals_detectSignal computePhaseDiff_eq
          norm_def ivs_def dphi_def)
  show ?thesis
    by (simp only: named literal forEach_eq)
qed

lemma extract64_empty:
  assumes "readIq disk file = Inr raw"
      and "findIntervals (aboveThreshold (calculatePower (normalize_iq raw)) threshold) minLen = []"
  shows "extractUnique64BitSequences atan2 disk file threshold minLen w = Inr []"
  using assms
  by (simp add: extractUnique64BitSequences_def readCU8File_eq normalizeIQ_eq computePower_eq
        findSignalIntervals_detectSignal)

lemma no_interval_empty:
  assumes "\<forall>iv. \<not> interval_ok flags minLen iv"
  shows "findIntervals flags minLen = []"
proof (rule ccontr)
  assume "findIntervals flags minLen \<noteq> []"
  then obtain iv where "iv \<in> set (findIntervals flags minLen)"
    by (cases "findIntervals flags minLen") auto
  then have "interval_ok flags minLen iv"
    using findIntervals_ok[of flags minLen] by blast
  with assms show False by blast
qed

lemma below_threshold_no_interval:
  assumes "\<forall>v \<in> set pw. real_of_int v \<le> threshold"
  shows "\<not> interval_ok (aboveThreshold pw threshold) minLen iv"
proof
  assume ok: "interval_ok (aboveThreshold pw threshold) minLen iv"
  then have r: "0 \<le> fst iv" "fst iv \<le> snd iv" "snd iv < int (length pw)"
    and t: "aboveThreshold pw threshold ! nat (fst iv)"
    by (auto simp: interval_ok_def aboveThreshold_def)
  have "nat (fst iv) < length pw" using r by simp
  then have "pw ! nat (fst iv) \<in> set pw" by simp
  moreover have "real_of_int (pw ! nat (fst iv)) > threshold"
    using t \<open>nat (fst iv) < length pw\<close> by (simp add: aboveThreshold_def)
  ultimately show False using assms by force
qed

lemma extract_empty:
  assumes "readIq disk file = Inr raw"
      and "findIntervals (aboveThreshold (calculatePower (normalize_iq raw)) threshold) minLen = []"
  shows "extractSequences atan2 disk file threshold minLen w = Inr []"
  using assms by (simp add: extractSequences_def)

text \<open>
  Claim C8. For a capture that can be read, if no interval of the activity mask meets the
  minimum length (no range inside the mask is active throughout and long enough), both
  pipelines return the empty list, not an error, whatever the samples-per-bit width and
  whatever \<open>atan2\<close> returns. In particular this is so when every sample's power is at or
  below the threshold: then the extractor finds no interval.
\<close>

theorem no_signal_gives_empty_result:
  assumes "readIq disk file = Inr raw"
  shows "((\<forall>iv. \<not> interval_ok (aboveThreshold (calculatePower (normalize_iq raw)) threshold) minLen iv)
            \<longrightarrow> extractSequences atan2 disk file threshold minLen samplesPerBit = Inr [] \<and>
                extractUnique64BitSequences atan2 disk file threshold minLen samplesPerBit = Inr []) \<and>
         ((\<forall>v \<in> set (calculatePower (normalize_iq raw)). real_of_int v \<le> threshold)
            \<longrightarrow> findIntervals (aboveThreshold (calculatePower (normalize_iq raw)) threshold) minLen = [] \<and>
                extractSequences atan2 disk file threshold minLen samplesPerBit = Inr [] \<and>
                extractUnique64BitSequences atan2 disk file threshold minLen samplesPerBit = Inr [])"
  using extract_empty[OF assms] extract64_empty[OF assms] no_interval_empty
    below_threshold_no_interval
  by simp

theorem no_signal_gives_empty_result_witness:
  "readIq [''c.cu8'' \<mapsto> [128, 128, 140, 128, 128, 128]] ''c.cu8''
     = Inr \<lparr>I = [128, 140, 128], Q = [128, 128, 128]\<rparr> \<and>
   aboveThreshold (calculatePower (normalize_iq \<lparr>I = [128, 140, 128], Q = [128, 128, 128]\<rparr>)) 5
     = [False, True, False] \<and>
   (\<forall>iv. \<not> interval_ok [False, True, False] 2 iv) \<and>
   (\<forall>atan2. extractSequences atan2 [''c.cu8'' \<mapsto> [128, 128, 140, 128, 128, 128]] ''c.cu8'' 5 2 635
      = Inr []) \<and>
   (\<forall>atan2. extractUnique64BitSequences atan2 [''c.cu8'' \<mapsto> [128, 128, 140, 128, 128, 128]]
      ''c.cu8'' 5 2 635 = Inr []) \<and>
   calculatePower (normalize_iq \<lparr>I = [128, 140, 128], Q = [128, 128, 128]\<rparr>) = [0, 144, 0] \<and>
   (\<forall>atan2. extractSequences atan2 [''c.cu8'' \<mapsto> [128, 128, 140, 128, 128, 128]] ''c.cu8'' 144 1 635
      = Inr [])"
proof -
  define disk :: files where "disk = [''c.cu8'' \<mapsto> [128, 128, 140, 128, 128, 128]]"
  define raw :: "byte iq" where "raw = \<lparr>I = [128, 140, 128], Q = [128, 128, 128]\<rparr>"
  have r: "readIq disk ''c.cu8'' = Inr raw"
    by (simp add: disk_def raw_def readIq_value upt_rec)
  have pw: "calculatePower (normalize_iq raw) = [0, 144, 0]"
    by (simp add: raw_def calculatePower_def normalize_iq_def)
  have fl: "aboveThreshold (calculatePower (normalize_iq raw)) 5 = [False, True, False]"
    by (simp add: pw aboveThreshold_def)
  have no: "\<not> interval_ok [False, True, False] 2 iv" for iv
  proof
    assume ok: "interval_ok [False, True, False] 2 iv"
    then have b: "0 \<le> fst iv" "fst iv + 1 \<le> snd iv" "snd iv < 3"
      by (simp_all add: interval_ok_def)
    from ok have t: "[False, True, False] ! nat j" if "fst iv \<le> j" "j \<le> snd iv" for j
      using that by (simp add: interval_ok_def)
    from b have "fst iv = 0 \<or> (fst iv = 1 \<and> snd iv = 2)" by linarith
    then show False
    proof
      assume "fst iv = 0"
      with t[of 0] b show False by simp
    next
      assume "fst iv = 1 \<and> snd iv = 2"
      with t[of 2] show False by simp
    qed
  qed
  have below: "\<forall>v \<in> set (calculatePower (normalize_iq raw)). real_of_int v \<le> 144"
    by (simp add: pw)
  have "extractSequences atan2 disk ''c.cu8'' 5 2 635 = Inr [] \<and>
        extractUnique64BitSequences atan2 disk ''c.cu8'' 5 2 635 = Inr [] \<and>
        extractSequences atan2 disk ''c.cu8'' 144 1 635 = Inr []" for atan2
    using no_signal_gives_empty_result [OF r, of 5 2 atan2 635]
          no_signal_gives_empty_result [OF r, of 144 1 atan2 635] no below fl
    by simp
  then show ?thesis
    using no r pw fl unfolding disk_def raw_def by simp
qed

section \<open>An end-to-end example\<close>

lemma demo_readIq: "readIq [''d.cu8'' \<mapsto> demo_capture] ''d.cu8'' = Inr demo_raw"
  unfolding demo_capture_def demo_raw_def by code_simp

lemma aboveThreshold_all:
  assumes "\<forall>v \<in> set pw. threshold < real_of_int v"
  shows "aboveThreshold pw threshold = replicate (length pw) True"
  using assms by (simp add: aboveThreshold_def map_replicate_const[symmetric] cong: map_cong)

lemma findIntervals_forEach_open:
  "findIntervals_forEach minLen (replicate n True) i (Some s, ivs) = (Some s, ivs)"
  by (induction n arbitrary: i) (simp_all add: findIntervals_step_def)

lemma findIntervals_all_active:
  "findIntervals (replicate (Suc n) True) minLen =
     (if minLen \<le> int (Suc n) then [(0, int n)] else [])"
  by (simp add: findIntervals_def findIntervals_step_def findIntervals_forEach_open)

lemma demo_flags:
  "aboveThreshold (calculatePower (normalize_iq demo_raw)) 5 = replicate 64 True"
proof -
  have "\<forall>v \<in> set (calculatePower (normalize_iq demo_raw)). 5 < real_of_int v"
    by (simp add: calculatePower_def normalize_iq_def demo_raw_def)
  moreover have "length (calculatePower (normalize_iq demo_raw)) = 64"
    by (simp add: calculatePower_def normalize_iq_def demo_raw_def)
  ultimately show ?thesis
    using aboveThreshold_all[of "calculatePower (normalize_iq demo_raw)" 5] by simp
qed

lemma demo_intervals: "findIntervals (replicate 64 True) 64 = [(0, 63)]"
  using findIntervals_all_active[of 63 64] by simp

lemma demo_raw_alt:
  "demo_raw = \<lparr>I = map (\<lambda>i. if even i then 138 else 128) [0..<64],
               Q = map (\<lambda>i. if even i then 128 else 138) [0..<64]\<rparr>"
  unfolding demo_raw_def by code_simp

lemma demo_computePhases:
  assumes "atan2 0 10 = Val 0" and "atan2 10 0 = Val (PI64 / 2)"
  shows "computePhases atan2 (normalize_iq demo_raw) =
           map (\<lambda>i. if even i then Val 0 else Val (PI64 / 2)) [0..<64]"
  using assms
  by (simp add: computePhases_def normalize_iq_def demo_raw_alt zip_map_map zip_same_conv_map
        o_def cong: map_cong)

lemma quarter_turn64 [simp]:
  "round64 (PI64 / 2) = Val (PI64 / 2)" "round64 (- (PI64 / 2)) = Val (- (PI64 / 2))"
  unfolding round64_def
  by (rule round_to_exact[where k = "- 49" and m = 884279719003555],
      simp_all add: PI64_def power_int_minus)
     (rule round_to_exact[where k = "- 49" and m = "- 884279719003555"],
      simp_all add: PI64_def power_int_minus)

lemma quarter_turn32 [simp]:
  "round64 (PI32 / 2) = Val (PI32 / 2)" "round64 (- (PI32 / 2)) = Val (- (PI32 / 2))"
  unfolding round64_def
  by (rule round_to_exact[where k = "- 23" and m = 13176795],
      simp_all add: PI32_def power_int_minus)
     (rule round_to_exact[where k = "- 23" and m = "- 13176795"],
      simp_all add: PI32_def power_int_minus)

lemma quarter_turn_fround [simp]:
  "round32 (PI64 / 2) = Val (PI32 / 2)" "round32 (- (PI64 / 2)) = Val (- (PI32 / 2))"
proof -
  have r: "round_unbounded 24 (- 126) (PI64 / 2) = PI32 / 2"
    by (subst round_unbounded_eval[where e = 0]) (simp_all add: PI64_def PI32_def rne_def Let_def)
  have b: "\<bar>PI32 / 2\<bar> \<le> 8" using PI64_bounds by simp
  show "round32 (PI64 / 2) = Val (PI32 / 2)"
    using r b by (rule round32_Val)
  have "round_unbounded 24 (- 126) (- (PI64 / 2)) = - (PI32 / 2)"
    by (simp only: round_unbounded_minus r)
  then show "round32 (- (PI64 / 2)) = Val (- (PI32 / 2))"
    using b by (intro round32_Val) simp_all
qed

lemma demo_computeDiffs:
  assumes "phases = map (\<lambda>i. if even i then Val 0 else Val (PI64 / 2)) [0..<64]" and "i < 64"
  shows "computeDiffs phases ! i =
           (if i = 0 then Val 0 else if even i then Val (- (PI32 / 2)) else Val (PI32 / 2))"
proof (cases "i = 0")
  case True
  then show ?thesis using assms by (simp add: computeDiffs_nth)
next
  case False
  then have p: "phases ! i = (if even i then Val 0 else Val (PI64 / 2))"
    "phases ! (i - 1) = (if even i then Val (PI64 / 2) else Val 0)"
    using assms by (simp_all add: less_imp_diff_less)
  show ?thesis
    using False assms(2) PI64_bounds
    by (simp add: computeDiffs_nth assms(1) p[unfolded assms(1)] wrap_step_once Math_PI_def)
qed

lemma demo_symbolBit:
  assumes "phases = map (\<lambda>i. if even i then Val 0 else Val (PI64 / 2)) [0..<64]"
      and "0 \<le> t" "t \<le> 63"
  shows "symbolBit (computeDiffs phases) 0 1 t = odd t"
proof -
  have n: "nat t < 64" using assms(2,3) by simp
  have l: "length phases = 64" by (simp add: assms(1))
  have e: "even (nat t) = even t" using assms(2) by (simp add: even_nat_iff)
  show ?thesis
    using assms(2,3) n PI64_bounds
    by (simp add: symbolBit_def integrate.simps ta_get_def l js_add_def js_positive_def
          demo_computeDiffs[OF assms(1) n] e)
qed

lemma demo_decodeBits:
  assumes "phases = map (\<lambda>i. if even i then Val 0 else Val (PI64 / 2)) [0..<64]"
  shows "decodeBits (computeDiffs phases) (0, 63) 1 =
           Inr (map (\<lambda>t. if odd t then ''1'' else ''0'') [0..63])"
  using demo_symbolBit[OF assms]
  by (simp add: decodeBits_def floorDiv_def decodeBits_loop_eq cong: map_cong)

lemma demo_bits:
  "join (map (\<lambda>t. if odd t then ''1'' else ''0'') [0..63]) =
     ''0101010101010101010101010101010101010101010101010101010101010101''"
  "length (map (\<lambda>t::int. if odd t then ''1'' else ''0'') [0..63]) = 64"
  by (simp_all add: join_def upto_rec1)

lemma demo_extractSequences:
  assumes "atan2 0 10 = Val 0" and "atan2 10 0 = Val (PI64 / 2)"
  shows "extractSequences atan2 [''d.cu8'' \<mapsto> demo_capture] ''d.cu8'' 5 64 1 =
     Inr [''0101010101010101010101010101010101010101010101010101010101010101'']"
  by (simp add: extractSequences_def demo_readIq demo_flags demo_intervals
        demo_computePhases[OF assms] demo_decodeBits demo_bits field_lengths set_add_def
      del: upto.simps)

text \<open>
  On the example capture, with threshold 5, minimum length 64 and one sample per bit, both
  pipelines return the one frame \<open>0101...01\<close>, for an \<open>atan2\<close> that returns 0 on the positive
  I axis and \<open>Math.PI / 2\<close> on the positive Q axis.
\<close>

theorem extraction_pipelines_agree_witness:
  "extractSequences (\<lambda>y x. if y = 0 then Val 0 else Val (PI64 / 2))
       [''d.cu8'' \<mapsto> demo_capture] ''d.cu8'' 5 64 1 =
     Inr [''0101010101010101010101010101010101010101010101010101010101010101''] \<and>
   extractUnique64BitSequences (\<lambda>y x. if y = 0 then Val 0 else Val (PI64 / 2))
       [''d.cu8'' \<mapsto> demo_capture] ''d.cu8'' 5 64 1 =
     Inr [''0101010101010101010101010101010101010101010101010101010101010101'']"
  using extraction_pipelines_agree [of "\<lambda>y x. if y = 0 then Val 0 else Val (PI64 / 2)"
          "[''d.cu8'' \<mapsto> demo_capture]" "''d.cu8''" 5 64 1]
  by (simp add: demo_extractSequences)

end
